theory Spec2Isabelle
  imports Main "HOL-Library.Char_ord" "HOL-Library.List_Lexorder"
begin

section \<open>Data model\<close>

text \<open>
  The Discord objects the scan reads, with the fields the code reads.  A message's
  \<open>m_timestamp\<close> is the value of \<^verbatim>\<open>Date.parse(msg.timestamp)\<close> (epoch milliseconds);
  \<open>m_reactions\<close> is \<open>None\<close> when the message object has no \<^verbatim>\<open>reactions\<close> property.
  A user record's \<open>u_bot\<close> is the truthiness of \<^verbatim>\<open>u.bot\<close> (absent counts as false).
\<close>

record user =
  u_id :: string
  u_bot :: bool

record emoji =
  e_name :: string
  e_id :: "string option"

record reaction =
  r_count :: nat
  r_emoji :: "emoji option"

record message =
  m_id :: string
  m_timestamp :: int
  m_author :: string
  m_reactions :: "reaction list option"

text \<open>
  An embed object as both variants build it.  Strings are byte strings (UTF-8);
  \<open>em_timestamp\<close> is the instant \<^verbatim>\<open>new Date()\<close> read when the embed was built, which
  \<^verbatim>\<open>toISOString()\<close> prints with millisecond precision.
\<close>

record embedField =
  f_name :: string
  f_value :: string
  f_inline :: bool

record embed =
  em_title :: string
  em_description :: string
  em_color :: nat
  em_footer :: "string option"
  em_timestamp :: int
  em_fields :: "embedField list"

text \<open>
  A response of \<^verbatim>\<open>fetch\<close>: not ok with its \<^verbatim>\<open>status\<close> and \<^verbatim>\<open>statusText\<close>, or ok
  with its JSON body.
\<close>

datatype 'a response = NotOk nat string | OkJson 'a

text \<open>
  The environment of a scan: the worker's bindings, the two Discord endpoints the scan
  reads (each a function of the request's parameters), the endpoint that receives a
  leaderboard, and the two host functions the code calls on strings.
\<close>

record env =
  DISCORD_BOT_TOKEN :: string
  SOURCE_CHANNEL_ID :: string
  POST_CHANNEL_ID :: string
  GUILD_ID :: string
  fetchMessagePage :: "string \<Rightarrow> string option \<Rightarrow> message list response"
  fetchReactionUserPage ::
    "string \<Rightarrow> string \<Rightarrow> string \<Rightarrow> string option \<Rightarrow> user list response"
  postChannelMessage :: "string \<Rightarrow> embed \<Rightarrow> unit response"
  encodeURIComponent :: "string \<Rightarrow> string"
  localeCompare :: "string \<Rightarrow> string \<Rightarrow> int"

text \<open>
  What a run does besides computing its result: the requests it sends and the messages
  the paginator hands to its consumer, in order.
\<close>

datatype event =
    GetMessages string "string option"
  | GetReactions string string string "string option"
  | Yield message
  | PostMessage string embed

datatype error =
    GetMessagesFailed nat
  | GetReactionsFailed nat
  | MissingConfig
  | PostLeaderboardFailed nat
  | FailedToFetchMessages string
  | FailedToPostLeaderboard string

text \<open>
  A call that returns gives \<open>Some (r, evs)\<close>: \<open>r\<close> is \<open>Inl\<close> the error thrown or \<open>Inr\<close> the
  value returned, \<open>evs\<close> the events of the call.  A call that never returns is \<open>None\<close>.
\<close>

type_synonym 'a outcome = "(error + 'a) \<times> event list"

section \<open>Maps, sets and arrays of the host\<close>

text \<open>
  A JavaScript \<^verbatim>\<open>Map\<close> and \<^verbatim>\<open>Set\<close> iterate in insertion order: a map is an association
  list with distinct keys, a set a list without repetition.
\<close>

fun mapGet :: "('k \<times> 'v) list \<Rightarrow> 'k \<Rightarrow> 'v option" where
  "mapGet [] k = None"
| "mapGet ((k', v) # rest) k = (if k' = k then Some v else mapGet rest k)"

fun mapSet :: "('k \<times> 'v) list \<Rightarrow> 'k \<Rightarrow> 'v \<Rightarrow> ('k \<times> 'v) list" where
  "mapSet [] k v = [(k, v)]"
| "mapSet ((k', v') # rest) k v = (if k' = k then (k', v) # rest else (k', v') # mapSet rest k v)"

definition setAdd :: "'a list \<Rightarrow> 'a \<Rightarrow> 'a list" where
  "setAdd s x = (if x \<in> set s then s else s @ [x])"

text \<open>\<^verbatim>\<open>(m.get(k) || 0)\<close>: the points of a user, 0 when the map has no entry.\<close>

definition pointsOf :: "(string \<times> nat) list \<Rightarrow> string \<Rightarrow> nat" where
  "pointsOf m k = (case mapGet m k of None \<Rightarrow> 0 | Some v \<Rightarrow> v)"

text \<open>
  \<^verbatim>\<open>Array.prototype.sort\<close> with a comparator: a stable sort that puts \<open>a\<close> before \<open>b\<close>
  when \<open>cmp a b \<le> 0\<close>; written as insertion into the sorted rest.
\<close>

fun insertBy :: "('a \<Rightarrow> 'a \<Rightarrow> int) \<Rightarrow> 'a \<Rightarrow> 'a list \<Rightarrow> 'a list" where
  "insertBy cmp x [] = [x]"
| "insertBy cmp x (y # ys) = (if cmp x y \<le> 0 then x # y # ys else y # insertBy cmp x ys)"

fun arraySort :: "('a \<Rightarrow> 'a \<Rightarrow> int) \<Rightarrow> 'a list \<Rightarrow> 'a list" where
  "arraySort cmp [] = []"
| "arraySort cmp (x # xs) = insertBy cmp x (arraySort cmp xs)"

text \<open>\<^verbatim>\<open>String(n)\<close> of a non-negative integer: its decimal digits.\<close>

fun showNat :: "nat \<Rightarrow> string" where
  "showNat n =
     (if n < 10 then [''0123456789'' ! n] else showNat (n div 10) @ [''0123456789'' ! (n mod 10)])"

declare showNat.simps [simp del]

text \<open>\<^verbatim>\<open>lines.join(sep)\<close>.\<close>

fun joinWith :: "string \<Rightarrow> string list \<Rightarrow> string" where
  "joinWith sep [] = []"
| "joinWith sep [l] = l"
| "joinWith sep (l # l' # ls) = l @ sep @ joinWith sep (l' # ls)"

text \<open>
  \<^verbatim>\<open>if (cursor) qs.set(..., cursor)\<close>: the cursor a request carries.  An undefined cursor
  and the empty string are both falsy, and the parameter is then left out.
\<close>

definition cursorParam :: "string option \<Rightarrow> string option" where
  "cursorParam c = (case c of None \<Rightarrow> None | Some s \<Rightarrow> if s = [] then None else Some s)"

section \<open>worker.js: the scan\<close>

subsection \<open>iterateMessages\<close>

text \<open>
  The \<^verbatim>\<open>for (const msg of batch)\<close> loop of the generator, run against the body of the
  consumer's \<^verbatim>\<open>for await\<close> loop: \<open>body msg acc\<close> is one pass of that body from the
  consumer's state \<open>acc\<close>.  The flag of the result says whether the generator returned
  (a message older than \<open>sinceTs\<close>) or the batch ran out.
\<close>

fun forBatch ::
  "int \<Rightarrow> (message \<Rightarrow> 'a \<Rightarrow> 'a outcome option) \<Rightarrow> message list \<Rightarrow> 'a \<Rightarrow> event list
    \<Rightarrow> (bool \<times> 'a) outcome option" where
  "forBatch sinceTs body [] acc evs = Some (Inr (False, acc), evs)"
| "forBatch sinceTs body (msg # rest) acc evs =
     (if m_timestamp msg < sinceTs then Some (Inr (True, acc), evs)
      else case body msg acc of
             None \<Rightarrow> None
           | Some (Inl e, bevs) \<Rightarrow> Some (Inl e, evs @ Yield msg # bevs)
           | Some (Inr acc', bevs) \<Rightarrow> forBatch sinceTs body rest acc' (evs @ Yield msg # bevs))"

text \<open>
  The \<^verbatim>\<open>while (true)\<close> loop of the generator; \<open>before\<close>, \<open>acc\<close> and \<open>evs\<close> are the cursor, the
  consumer's state and the events so far.  \<open>fetchMessagePage env channelId c\<close> is the
  response of \<^verbatim>\<open>dFetch\<close> for the channel's messages with \<^verbatim>\<open>limit=100\<close> and the cursor \<open>c\<close>;
  the body of an ok response is an array of messages (the code leaves the loop on a body
  that is not an array as it does on an empty one).
\<close>

partial_function (option) iterateMessages ::
  "env \<Rightarrow> string \<Rightarrow> int \<Rightarrow> (message \<Rightarrow> 'a \<Rightarrow> 'a outcome option) \<Rightarrow> string option \<Rightarrow> 'a
    \<Rightarrow> event list \<Rightarrow> 'a outcome option" where
  "iterateMessages env channelId sinceTs body before acc evs =
     (case fetchMessagePage env channelId (cursorParam before) of
        NotOk status statusText \<Rightarrow>
          Some (Inl (GetMessagesFailed status), evs @ [GetMessages channelId (cursorParam before)])
      | OkJson batch \<Rightarrow>
          if batch = [] then Some (Inr acc, evs @ [GetMessages channelId (cursorParam before)])
          else (case forBatch sinceTs body batch acc
                       (evs @ [GetMessages channelId (cursorParam before)]) of
                  None \<Rightarrow> None
                | Some (Inl e, evs') \<Rightarrow> Some (Inl e, evs')
                | Some (Inr (returned, acc'), evs') \<Rightarrow>
                    if returned then Some (Inr acc', evs')
                    else iterateMessages env channelId sinceTs body (Some (m_id (last batch)))
                           acc' evs'))"

declare iterateMessages.simps [code]

text \<open>A consumer that only takes the messages: \<^verbatim>\<open>for await (const msg of ...) { }\<close>.\<close>

definition takeOnly :: "message \<Rightarrow> unit \<Rightarrow> unit outcome option" where
  "takeOnly msg acc = Some (Inr (), [])"

text \<open>The messages a run's events say were yielded, in order.\<close>

fun yielded :: "event list \<Rightarrow> message list" where
  "yielded [] = []"
| "yielded (Yield msg # evs) = msg # yielded evs"
| "yielded (ev # evs) = yielded evs"

subsection \<open>getReactorsForMessage\<close>

definition emojiIdent :: "env \<Rightarrow> emoji \<Rightarrow> string" where
  "emojiIdent env e =
     (case e_id e of
        None \<Rightarrow> encodeURIComponent env (e_name e)
      | Some i \<Rightarrow> if i = [] then encodeURIComponent env (e_name e) else e_name e @ '':'' @ i)"

text \<open>\<^verbatim>\<open>for (const u of batch) if (!u.bot) users.add(u.id)\<close>.\<close>

fun addNonBots :: "user list \<Rightarrow> string list \<Rightarrow> string list" where
  "addNonBots [] users = users"
| "addNonBots (u # batch) users =
     addNonBots batch (if \<not> u_bot u then setAdd users (u_id u) else users)"

text \<open>The inner \<^verbatim>\<open>while (true)\<close> loop: the pages of the users of one emoji.\<close>

partial_function (option) reactionUsersLoop ::
  "env \<Rightarrow> string \<Rightarrow> string \<Rightarrow> string \<Rightarrow> string option \<Rightarrow> string list \<Rightarrow> event list
    \<Rightarrow> string list outcome option" where
  "reactionUsersLoop env channelId messageId ident after users evs =
     (case fetchReactionUserPage env channelId messageId ident (cursorParam after) of
        NotOk status statusText \<Rightarrow>
          Some (Inl (GetReactionsFailed status),
                evs @ [GetReactions channelId messageId ident (cursorParam after)])
      | OkJson batch \<Rightarrow>
          if length batch < 100
          then Some (Inr (addNonBots batch users),
                     evs @ [GetReactions channelId messageId ident (cursorParam after)])
          else reactionUsersLoop env channelId messageId ident (Some (u_id (last batch)))
                 (addNonBots batch users)
                 (evs @ [GetReactions channelId messageId ident (cursorParam after)]))"

declare reactionUsersLoop.simps [code]

text \<open>The \<^verbatim>\<open>for (const r of reactionsSummary)\<close> loop.\<close>

fun forReactions ::
  "env \<Rightarrow> string \<Rightarrow> string \<Rightarrow> reaction list \<Rightarrow> string list \<Rightarrow> event list
    \<Rightarrow> string list outcome option" where
  "forReactions env channelId messageId [] users evs = Some (Inr users, evs)"
| "forReactions env channelId messageId (r # rest) users evs =
     (case r_emoji r of
        None \<Rightarrow> forReactions env channelId messageId rest users evs
      | Some e \<Rightarrow>
          if r_count r = 0 then forReactions env channelId messageId rest users evs
          else (case reactionUsersLoop env channelId messageId (emojiIdent env e) None users evs of
                  None \<Rightarrow> None
                | Some (Inl err, evs') \<Rightarrow> Some (Inl err, evs')
                | Some (Inr users', evs') \<Rightarrow>
                    forReactions env channelId messageId rest users' evs'))"

text \<open>\<open>reactionsSummary\<close> is \<open>None\<close> when the argument is not an array.\<close>

definition getReactorsForMessage ::
  "env \<Rightarrow> string \<Rightarrow> string \<Rightarrow> reaction list option \<Rightarrow> string list outcome option" where
  "getReactorsForMessage env channelId messageId reactionsSummary =
     (case reactionsSummary of
        None \<Rightarrow> Some (Inr [], [])
      | Some rs \<Rightarrow>
          if rs = [] then Some (Inr [], [])
          else forReactions env channelId messageId rs [] [])"

subsection \<open>topN, buildNameMap, runScan\<close>

definition entryCompare ::
  "(string \<Rightarrow> string \<Rightarrow> int) \<Rightarrow> string \<times> nat \<Rightarrow> string \<times> nat \<Rightarrow> int" where
  "entryCompare lc a b =
     (if int (snd b) - int (snd a) \<noteq> 0 then int (snd b) - int (snd a) else lc (fst a) (fst b))"

text \<open>\<open>n\<close> is \<open>None\<close> when the argument is left out.\<close>

definition topN ::
  "(string \<Rightarrow> string \<Rightarrow> int) \<Rightarrow> (string \<times> nat) list \<Rightarrow> nat option \<Rightarrow> (string \<times> nat) list" where
  "topN lc m n = take (case n of None \<Rightarrow> 10 | Some k \<Rightarrow> k) (arraySort (entryCompare lc) m)"

text \<open>The \<^verbatim>\<open>for (const uid of userIds)\<close> loop of buildNameMap, from the map so far.\<close>

fun setNames :: "(string \<times> string) list \<Rightarrow> string list \<Rightarrow> (string \<times> string) list" where
  "setNames names [] = names"
| "setNames names (uid # userIds) = setNames (mapSet names uid (''<@'' @ uid @ ''>'')) userIds"

definition buildNameMap :: "string list \<Rightarrow> (string \<times> string) list" where
  "buildNameMap userIds = setNames [] userIds"

text \<open>The \<^verbatim>\<open>for (const uid of reactors)\<close> loop of runScan on the ledger and the seen users.\<close>

fun award ::
  "string list \<Rightarrow> (string \<times> nat) list \<times> string list \<Rightarrow> (string \<times> nat) list \<times> string list" where
  "award [] st = st"
| "award (uid # reactors) (points, seenUsers) =
     award reactors (mapSet points uid (pointsOf points uid + 1), setAdd seenUsers uid)"

text \<open>The body of the \<^verbatim>\<open>for await\<close> loop of runScan.\<close>

definition scanBody ::
  "env \<Rightarrow> string \<Rightarrow> message \<Rightarrow> (string \<times> nat) list \<times> string list
    \<Rightarrow> ((string \<times> nat) list \<times> string list) outcome option" where
  "scanBody env source msg st =
     (case m_reactions msg of
        None \<Rightarrow> Some (Inr st, [])
      | Some rs \<Rightarrow>
          if rs = [] then Some (Inr st, [])
          else (case getReactorsForMessage env source (m_id msg) (Some rs) of
                  None \<Rightarrow> None
                | Some (Inl err, evs) \<Rightarrow> Some (Inl err, evs)
                | Some (Inr reactors, evs) \<Rightarrow> Some (Inr (award reactors st), evs)))"

record scanResult =
  rows :: "(string \<times> nat) list"
  names :: "(string \<times> string) list"
  uniqueReactors :: nat

definition weekMs :: int where
  "weekMs = 7 * 24 * 60 * 60 * 1000"

text \<open>
  The loop of runScan from the window start: the ledger and the seen users it ends with.
\<close>

definition scanLoop ::
  "env \<Rightarrow> int \<Rightarrow> ((string \<times> nat) list \<times> string list) outcome option" where
  "scanLoop env sinceTs =
     iterateMessages env (SOURCE_CHANNEL_ID env) sinceTs (scanBody env (SOURCE_CHANNEL_ID env))
       None ([], []) []"

text \<open>
  \<open>windowMs\<close> is \<open>None\<close> when the argument is left out; \<open>now\<close> is what \<^verbatim>\<open>Date.now()\<close> reads.
\<close>

definition runScan :: "env \<Rightarrow> int option \<Rightarrow> int \<Rightarrow> scanResult outcome option" where
  "runScan env windowMs now =
     (if DISCORD_BOT_TOKEN env = [] \<or> SOURCE_CHANNEL_ID env = [] then Some (Inl MissingConfig, [])
      else (case scanLoop env (now - (case windowMs of None \<Rightarrow> weekMs | Some w \<Rightarrow> w)) of
              None \<Rightarrow> None
            | Some (Inl err, evs) \<Rightarrow> Some (Inl err, evs)
            | Some (Inr (points, seenUsers), evs) \<Rightarrow>
                Some (Inr \<lparr>rows = topN (localeCompare env) points (Some 10),
                           names = buildNameMap seenUsers,
                           uniqueReactors = length seenUsers\<rparr>, evs)))"

subsection \<open>Rendering and posting\<close>

text \<open>The markers and the dash of a line, as UTF-8 bytes.\<close>

definition firstPlace :: string where
  "firstPlace = [CHR 0xF0, CHR 0x9F, CHR 0xA5, CHR 0x87]"

definition secondPlace :: string where
  "secondPlace = [CHR 0xF0, CHR 0x9F, CHR 0xA5, CHR 0x88]"

definition thirdPlace :: string where
  "thirdPlace = [CHR 0xF0, CHR 0x9F, CHR 0xA5, CHR 0x89]"

definition bullet :: string where
  "bullet = [CHR 0xE2, CHR 0x80, CHR 0xA2]"

definition emDash :: string where
  "emDash = [CHR 0xE2, CHR 0x80, CHR 0x94]"

definition trophy :: string where
  "trophy = [CHR 0xF0, CHR 0x9F, CHR 0x8F, CHR 0x86]"

definition medal :: "nat \<Rightarrow> string" where
  "medal i = (if i = 0 then firstPlace else if i = 1 then secondPlace
              else if i = 2 then thirdPlace else bullet)"

text \<open>\<^verbatim>\<open>nameLookup.get(uid) || `User ${uid}`\<close>: an absent and an empty name are both falsy.\<close>

definition displayName :: "(string \<times> string) list \<Rightarrow> string \<Rightarrow> string" where
  "displayName nameLookup uid =
     (case mapGet nameLookup uid of
        None \<Rightarrow> ''User '' @ uid
      | Some name \<Rightarrow> if name = [] then ''User '' @ uid else name)"

definition renderLine :: "(string \<times> string) list \<Rightarrow> nat \<Rightarrow> string \<times> nat \<Rightarrow> string" where
  "renderLine nameLookup i row =
     medal i @ '' **'' @ showNat (i + 1) @ ''. '' @ displayName nameLookup (fst row) @ ''** ''
       @ emDash @ '' '' @ showNat (snd row) @ '' pt'' @ (if snd row = 1 then [] else ''s'')"

text \<open>\<^verbatim>\<open>rows.map(([uid, pts], i) => ...)\<close>, from index \<open>i\<close> on.\<close>

fun renderLinesFrom :: "(string \<times> string) list \<Rightarrow> nat \<Rightarrow> (string \<times> nat) list \<Rightarrow> string list" where
  "renderLinesFrom nameLookup i [] = []"
| "renderLinesFrom nameLookup i (row # rest) =
     renderLine nameLookup i row # renderLinesFrom nameLookup (i + 1) rest"

definition renderLines :: "(string \<times> string) list \<Rightarrow> (string \<times> nat) list \<Rightarrow> string list" where
  "renderLines nameLookup rs = renderLinesFrom nameLookup 0 rs"

text \<open>\<^verbatim>\<open>lines.join('\n') || 'No points this week.'\<close>: the empty string is falsy.\<close>

definition describeLines :: "string list \<Rightarrow> string" where
  "describeLines lines =
     (if joinWith [CHR 0x0A] lines = [] then ''No points this week.''
      else joinWith [CHR 0x0A] lines)"

text \<open>
  The embed postFancyLeaderboard builds.  \<open>meta\<close> is \<open>None\<close> when the argument is falsy,
  and \<open>Some None\<close> when its \<^verbatim>\<open>uniqueReactors\<close> is null or undefined; \<open>clock\<close> is the instant
  \<^verbatim>\<open>new Date()\<close> reads.
\<close>

definition leaderboardEmbed ::
  "(string \<times> nat) list \<Rightarrow> (string \<times> string) list \<Rightarrow> nat option option \<Rightarrow> int \<Rightarrow> embed" where
  "leaderboardEmbed rs nameLookup meta clock =
     \<lparr>em_title = trophy @ '' Weekly Reading Leaderboard'',
      em_description = describeLines (renderLines nameLookup rs),
      em_color = 0x00b894,
      em_footer = Some ''Scoring: 1 point per message you react to in #daily-reading-check'',
      em_timestamp = clock,
      em_fields =
        (case meta of
           None \<Rightarrow> []
         | Some u \<Rightarrow>
             [\<lparr>f_name = ''Unique reactors (7d)'',
               f_value = showNat (case u of None \<Rightarrow> 0 | Some k \<Rightarrow> k),
               f_inline = True\<rparr>])\<rparr>"

definition postFancyLeaderboard ::
  "env \<Rightarrow> string \<Rightarrow> (string \<times> nat) list \<Rightarrow> (string \<times> string) list \<Rightarrow> nat option option \<Rightarrow> int
    \<Rightarrow> unit outcome option" where
  "postFancyLeaderboard env channelId rs nameLookup meta clock =
     (case postChannelMessage env channelId (leaderboardEmbed rs nameLookup meta clock) of
        NotOk status statusText \<Rightarrow>
          Some (Inl (PostLeaderboardFailed status),
                [PostMessage channelId (leaderboardEmbed rs nameLookup meta clock)])
      | OkJson u \<Rightarrow>
          Some (Inr (), [PostMessage channelId (leaderboardEmbed rs nameLookup meta clock)]))"

text \<open>The embed of the slash command's follow-up.\<close>

definition slashEmbed :: "scanResult \<Rightarrow> int \<Rightarrow> embed" where
  "slashEmbed res clock =
     \<lparr>em_title = trophy @ '' Weekly Reading Leaderboard (last 7 days)'',
      em_description = describeLines (renderLines (names res) (rows res)),
      em_color = 0xf1c40f,
      em_footer = Some ''Slash-triggered snapshot'',
      em_timestamp = clock,
      em_fields =
        [\<lparr>f_name = ''Unique reactors'', f_value = showNat (uniqueReactors res), f_inline = True\<rparr>]\<rparr>"

text \<open>
  The \<^verbatim>\<open>scheduled\<close> entry point: \<open>now\<close> is the clock when the scan starts, \<open>clock\<close> the clock
  when the embed is built.
\<close>

definition scheduled :: "env \<Rightarrow> int \<Rightarrow> int \<Rightarrow> unit outcome option" where
  "scheduled env now clock =
     (case runScan env None now of
        None \<Rightarrow> None
      | Some (Inl err, evs) \<Rightarrow> Some (Inl err, evs)
      | Some (Inr res, evs) \<Rightarrow>
          (case postFancyLeaderboard env (POST_CHANNEL_ID env) (rows res) (names res)
                  (Some (Some (uniqueReactors res))) clock of
             None \<Rightarrow> None
           | Some (r, pevs) \<Rightarrow> Some (r, evs @ pevs)))"

section \<open>leaderboard.js: the earlier variant\<close>

definition MS_IN_WEEK :: int where
  "MS_IN_WEEK = 7 * 24 * 60 * 60 * 1000"

text \<open>
  The \<^verbatim>\<open>while (true)\<close> loop of getRecentMessages; \<open>lastId\<close>, \<open>messages\<close> and \<open>evs\<close> are the
  cursor, the array so far and the events so far.
\<close>

partial_function (option) recentLoop ::
  "env \<Rightarrow> string \<Rightarrow> int \<Rightarrow> nat \<Rightarrow> string option \<Rightarrow> message list \<Rightarrow> event list
    \<Rightarrow> message list outcome option" where
  "recentLoop env channelId oneWeekAgo limit lastId messages evs =
     (case fetchMessagePage env channelId (cursorParam lastId) of
        NotOk status statusText \<Rightarrow>
          Some (Inl (FailedToFetchMessages statusText),
                evs @ [GetMessages channelId (cursorParam lastId)])
      | OkJson batch \<Rightarrow>
          if batch = [] then Some (Inr messages, evs @ [GetMessages channelId (cursorParam lastId)])
          else if m_timestamp (last batch) < oneWeekAgo
          then Some (Inr (messages @ filter (\<lambda>msg. oneWeekAgo \<le> m_timestamp msg) batch),
                     evs @ [GetMessages channelId (cursorParam lastId)])
          else if limit \<le> length (messages @ batch)
          then Some (Inr (take limit (messages @ batch)),
                     evs @ [GetMessages channelId (cursorParam lastId)])
          else recentLoop env channelId oneWeekAgo limit (Some (m_id (last batch)))
                 (messages @ batch) (evs @ [GetMessages channelId (cursorParam lastId)]))"

declare recentLoop.simps [code]

text \<open>\<open>limit\<close> is \<open>None\<close> when the argument is left out.\<close>

definition getRecentMessages ::
  "env \<Rightarrow> string \<Rightarrow> nat option \<Rightarrow> int \<Rightarrow> message list outcome option" where
  "getRecentMessages env channelId limit now =
     recentLoop env channelId (now - MS_IN_WEEK) (case limit of None \<Rightarrow> 100 | Some l \<Rightarrow> l)
       None [] []"

fun calculatePointsFrom :: "(string \<times> nat) list \<Rightarrow> message list \<Rightarrow> (string \<times> nat) list" where
  "calculatePointsFrom userPoints [] = userPoints"
| "calculatePointsFrom userPoints (msg # messages) =
     (case m_reactions msg of
        None \<Rightarrow> calculatePointsFrom userPoints messages
      | Some rs \<Rightarrow>
          if 0 < length rs
          then calculatePointsFrom
                 (mapSet userPoints (m_author msg) (pointsOf userPoints (m_author msg) + 1)) messages
          else calculatePointsFrom userPoints messages)"

definition calculatePoints :: "message list \<Rightarrow> (string \<times> nat) list" where
  "calculatePoints messages = calculatePointsFrom [] messages"

definition pointsCompare :: "string \<times> nat \<Rightarrow> string \<times> nat \<Rightarrow> int" where
  "pointsCompare a b = int (snd b) - int (snd a)"

text \<open>\<^verbatim>\<open>sortedUsers.map(([userId, points], index) => ...)\<close>, from index \<open>i\<close> on.\<close>

fun embedFieldsFrom :: "nat \<Rightarrow> (string \<times> nat) list \<Rightarrow> embedField list" where
  "embedFieldsFrom i [] = []"
| "embedFieldsFrom i (row # rest) =
     \<lparr>f_name = ''#'' @ showNat (i + 1),
      f_value = ''<@'' @ fst row @ ''> - '' @ showNat (snd row) @ '' points'',
      f_inline = False\<rparr> # embedFieldsFrom (i + 1) rest"

definition generateLeaderboardEmbed :: "(string \<times> nat) list \<Rightarrow> int \<Rightarrow> embed" where
  "generateLeaderboardEmbed userPoints clock =
     \<lparr>em_title = trophy @ '' Weekly Reactors Leaderboard'',
      em_description = ''Top 10 users who received reactions in the past week:'',
      em_color = 0xffd700,
      em_footer = None,
      em_timestamp = clock,
      em_fields = embedFieldsFrom 0 (take 10 (arraySort pointsCompare userPoints))\<rparr>"

definition postLeaderboard :: "env \<Rightarrow> embed \<Rightarrow> string \<Rightarrow> unit outcome option" where
  "postLeaderboard env e channelId =
     (case postChannelMessage env channelId e of
        NotOk status statusText \<Rightarrow>
          Some (Inl (FailedToPostLeaderboard statusText), [PostMessage channelId e])
      | OkJson u \<Rightarrow> Some (Inr (), [PostMessage channelId e]))"

definition generateAndPostLeaderboard ::
  "env \<Rightarrow> nat option \<Rightarrow> int \<Rightarrow> int \<Rightarrow> embed outcome option" where
  "generateAndPostLeaderboard env limit now clock =
     (case getRecentMessages env (SOURCE_CHANNEL_ID env) limit now of
        None \<Rightarrow> None
      | Some (Inl err, evs) \<Rightarrow> Some (Inl err, evs)
      | Some (Inr messages, evs) \<Rightarrow>
          (case postLeaderboard env (generateLeaderboardEmbed (calculatePoints messages) clock)
                  (POST_CHANNEL_ID env) of
             None \<Rightarrow> None
           | Some (Inl err, pevs) \<Rightarrow> Some (Inl err, evs @ pevs)
           | Some (Inr u, pevs) \<Rightarrow>
               Some (Inr (generateLeaderboardEmbed (calculatePoints messages) clock),
                     evs @ pevs)))"

section \<open>What a run's events say\<close>

text \<open>
  \<open>nonBotIn env ev uid\<close>: the event is a request for a page of reaction users, and the page
  it received holds a user record with identifier \<open>uid\<close> and no bot flag.
\<close>

definition nonBotIn :: "env \<Rightarrow> event \<Rightarrow> string \<Rightarrow> bool" where
  "nonBotIn env ev uid =
     (case ev of
        GetReactions channelId messageId ident after \<Rightarrow>
          (case fetchReactionUserPage env channelId messageId ident after of
             NotOk status statusText \<Rightarrow> False
           | OkJson batch \<Rightarrow> \<exists>u\<in>set batch. u_id u = uid \<and> \<not> u_bot u)
      | _ \<Rightarrow> False)"

definition nonBotReactor :: "env \<Rightarrow> event list \<Rightarrow> string \<Rightarrow> bool" where
  "nonBotReactor env evs uid = (\<exists>ev\<in>set evs. nonBotIn env ev uid)"

text \<open>
  \<open>reactorOf env channelId msg uid\<close>: \<open>uid\<close> appears without the bot flag in a page of
  reaction users requested for \<open>msg\<close>, whatever the emoji.  The requests are those that
  getReactorsForMessage sends for the message's reaction summaries.
\<close>

definition reactorOf :: "env \<Rightarrow> string \<Rightarrow> message \<Rightarrow> string \<Rightarrow> bool" where
  "reactorOf env channelId msg uid =
     (case getReactorsForMessage env channelId (m_id msg) (m_reactions msg) of
        None \<Rightarrow> False
      | Some (r, evs) \<Rightarrow> nonBotReactor env evs uid)"


text \<open>
  The status of the response when the event is a page request that was answered with a
  response that is not ok, and the error worker.js throws for such a request.
\<close>

definition failedStatus :: "env \<Rightarrow> event \<Rightarrow> nat option" where
  "failedStatus env ev =
     (case ev of
        GetMessages channelId before \<Rightarrow>
          (case fetchMessagePage env channelId before of
             NotOk status statusText \<Rightarrow> Some status
           | OkJson batch \<Rightarrow> None)
      | GetReactions channelId messageId ident after \<Rightarrow>
          (case fetchReactionUserPage env channelId messageId ident after of
             NotOk status statusText \<Rightarrow> Some status
           | OkJson batch \<Rightarrow> None)
      | _ \<Rightarrow> None)"

definition errorFor :: "event \<Rightarrow> nat \<Rightarrow> error" where
  "errorFor ev status =
     (case ev of
        GetReactions channelId messageId ident after \<Rightarrow> GetReactionsFailed status
      | _ \<Rightarrow> GetMessagesFailed status)"

definition isPost :: "event \<Rightarrow> bool" where
  "isPost ev = (case ev of PostMessage channelId e \<Rightarrow> True | _ \<Rightarrow> False)"


section \<open>Invariants of the loops\<close>

text \<open>A condition on the outcome of a call: \<open>Q\<close> when it threw, \<open>I\<close> when it returned.\<close>

definition ensures ::
  "('a \<Rightarrow> event list \<Rightarrow> bool) \<Rightarrow> (error \<Rightarrow> event list \<Rightarrow> bool) \<Rightarrow> 'a outcome \<Rightarrow> bool" where
  "ensures I Q r = (case r of (Inl e, evs) \<Rightarrow> Q e evs | (Inr a, evs) \<Rightarrow> I a evs)"

text \<open>
  The reactor set while the pages of one message are read: without repetition, and
  holding exactly the users that the pages received so far show without the bot flag.
\<close>

definition usersInv :: "env \<Rightarrow> string list \<Rightarrow> event list \<Rightarrow> bool" where
  "usersInv env users evs \<longleftrightarrow>
     distinct users \<and> set users = {uid. nonBotReactor env evs uid} \<and> yielded evs = []"

text \<open>The ledger and the seen users: the same users, each once, each with a point or more.\<close>

definition ledgerInv :: "(string \<times> nat) list \<times> string list \<Rightarrow> bool" where
  "ledgerInv st \<longleftrightarrow>
     distinct (map fst (fst st)) \<and> distinct (snd st) \<and> set (snd st) = fst ` set (fst st)
       \<and> (\<forall>e\<in>set (fst st). 0 < snd e)"

definition scanInv ::
  "env \<Rightarrow> string \<Rightarrow> int \<Rightarrow> (string \<times> nat) list \<times> string list \<Rightarrow> event list \<Rightarrow> bool" where
  "scanInv env channelId sinceTs st evs \<longleftrightarrow>
     ledgerInv st \<and> (\<forall>msg\<in>set (yielded evs). sinceTs \<le> m_timestamp msg)
       \<and> (\<forall>uid. pointsOf (fst st) uid
             = length (filter (\<lambda>msg. reactorOf env channelId msg uid) (yielded evs)))"

text \<open>
  Every request so far was answered ok and nothing was posted; and a run that stopped at
  its last event, a page request that was not answered ok, with the error for it.
\<close>

definition allOk :: "env \<Rightarrow> event list \<Rightarrow> bool" where
  "allOk env evs \<longleftrightarrow> (\<forall>ev\<in>set evs. failedStatus env ev = None \<and> \<not> isPost ev)"

definition abortedAt :: "env \<Rightarrow> error \<Rightarrow> event list \<Rightarrow> bool" where
  "abortedAt env e evs \<longleftrightarrow>
     evs \<noteq> [] \<and> allOk env (butlast evs) \<and> \<not> isPost (last evs)
       \<and> (\<exists>status. failedStatus env (last evs) = Some status \<and> e = errorFor (last evs) status)"

definition legacyAborted :: "env \<Rightarrow> error \<Rightarrow> event list \<Rightarrow> bool" where
  "legacyAborted env e evs \<longleftrightarrow>
     evs \<noteq> [] \<and> allOk env (butlast evs)
       \<and> (\<exists>channelId c status statusText. last evs = GetMessages channelId c
            \<and> fetchMessagePage env channelId c = NotOk status statusText
            \<and> e = FailedToFetchMessages statusText)"

section \<open>Scenarios\<close>

text \<open>
  A comparison of identifiers by code units, as \<^verbatim>\<open>localeCompare\<close> orders strings of decimal
  digits.
\<close>

definition byCodeUnits :: "string \<Rightarrow> string \<Rightarrow> int" where
  "byCodeUnits a b = (if a < b then - 1 else if a = b then 0 else 1)"

text \<open>
  A channel with one page of five messages, newest first.  The window starts at 1000:
  \<open>msgA\<close>, \<open>msgB\<close> and \<open>msgC\<close> are inside, \<open>msgD\<close> and \<open>msgE\<close> are older.  User 1 reacted to
  \<open>msgA\<close> with two emoji, user 2 to \<open>msgA\<close> and \<open>msgB\<close>, user 3 and the bot 99 to \<open>msgB\<close>.
\<close>

definition thumbsUp :: emoji where
  "thumbsUp = \<lparr>e_name = ''thumbsup'', e_id = None\<rparr>"

definition pray :: emoji where
  "pray = \<lparr>e_name = ''pray'', e_id = Some ''900''\<rparr>"

definition msgA :: message where
  "msgA = \<lparr>m_id = ''40'', m_timestamp = 4000, m_author = ''7'',
            m_reactions = Some [\<lparr>r_count = 2, r_emoji = Some thumbsUp\<rparr>,
                                \<lparr>r_count = 1, r_emoji = Some pray\<rparr>]\<rparr>"

definition msgB :: message where
  "msgB = \<lparr>m_id = ''30'', m_timestamp = 3000, m_author = ''8'',
            m_reactions = Some [\<lparr>r_count = 3, r_emoji = Some thumbsUp\<rparr>]\<rparr>"

definition msgC :: message where
  "msgC = \<lparr>m_id = ''20'', m_timestamp = 2000, m_author = ''7'', m_reactions = None\<rparr>"

definition msgD :: message where
  "msgD = \<lparr>m_id = ''10'', m_timestamp = 500, m_author = ''8'',
            m_reactions = Some [\<lparr>r_count = 1, r_emoji = Some thumbsUp\<rparr>]\<rparr>"

definition msgE :: message where
  "msgE = \<lparr>m_id = ''05'', m_timestamp = 400, m_author = ''7'', m_reactions = None\<rparr>"

definition demoReactions ::
  "string \<Rightarrow> string \<Rightarrow> string \<Rightarrow> string option \<Rightarrow> user list response" where
  "demoReactions channelId messageId ident after =
     (if messageId = ''40'' \<and> ident = ''thumbsup''
      then OkJson [\<lparr>u_id = ''1'', u_bot = False\<rparr>, \<lparr>u_id = ''2'', u_bot = False\<rparr>]
      else if messageId = ''40'' \<and> ident = ''pray:900''
      then OkJson [\<lparr>u_id = ''1'', u_bot = False\<rparr>]
      else if messageId = ''30''
      then OkJson [\<lparr>u_id = ''2'', u_bot = False\<rparr>, \<lparr>u_id = ''99'', u_bot = True\<rparr>,
                   \<lparr>u_id = ''3'', u_bot = False\<rparr>]
      else OkJson [])"

definition demoEnv :: env where
  "demoEnv =
     \<lparr>DISCORD_BOT_TOKEN = ''token'', SOURCE_CHANNEL_ID = ''src'', POST_CHANNEL_ID = ''dst'',
      GUILD_ID = ''guild'',
      fetchMessagePage = (\<lambda>channelId before.
        if before = None then OkJson [msgA, msgB, msgC, msgD, msgE] else OkJson []),
      fetchReactionUserPage = demoReactions,
      postChannelMessage = (\<lambda>channelId e. OkJson ()),
      encodeURIComponent = (\<lambda>s. s),
      localeCompare = byCodeUnits\<rparr>"


text \<open>A channel whose messages are all older than the window.\<close>

definition quietEnv :: env where
  "quietEnv = demoEnv\<lparr>fetchMessagePage := (\<lambda>channelId before.
      if before = None then OkJson [msgD, msgE] else OkJson [])\<rparr>"

text \<open>The same channel when the reaction users of \<open>msgB\<close> cannot be read.\<close>

definition failingEnv :: env where
  "failingEnv = demoEnv\<lparr>fetchReactionUserPage := (\<lambda>channelId messageId ident after.
      if messageId = ''30'' then NotOk 429 ''Too Many Requests''
      else demoReactions channelId messageId ident after)\<rparr>"

text \<open>Both endpoints answering every request with the given status and status text.\<close>

definition downEnv :: "nat \<Rightarrow> string \<Rightarrow> env" where
  "downEnv status statusText =
     demoEnv\<lparr>fetchMessagePage := (\<lambda>channelId before. NotOk status statusText),
             fetchReactionUserPage := (\<lambda>channelId messageId ident after. NotOk status statusText)\<rparr>"




text \<open>What the scan of the scenario's channel does and returns, with a window from 1000.\<close>

definition demoEvents :: "event list" where
  "demoEvents =
     [GetMessages ''src'' None, Yield msgA, GetReactions ''src'' ''40'' ''thumbsup'' None,
      GetReactions ''src'' ''40'' ''pray:900'' None, Yield msgB,
      GetReactions ''src'' ''30'' ''thumbsup'' None, Yield msgC]"

definition demoResult :: scanResult where
  "demoResult =
     \<lparr>rows = [(''2'', 2), (''1'', 1), (''3'', 1)],
      names = [(''1'', ''<@1>''), (''2'', ''<@2>''), (''3'', ''<@3>'')],
      uniqueReactors = 3\<rparr>"

section \<open>Lemmas\<close>

subsection \<open>Arrays: the sort\<close>

lemma set_insertBy: "set (insertBy cmp x xs) = insert x (set xs)"
  by (induction xs) auto

lemma length_insertBy: "length (insertBy cmp x xs) = Suc (length xs)"
  by (induction xs) auto

lemma set_arraySort: "set (arraySort cmp xs) = set xs"
  by (induction xs) (auto simp: set_insertBy)

lemma length_arraySort: "length (arraySort cmp xs) = length xs"
  by (induction xs) (auto simp: length_insertBy)

lemma map_fst_insertBy_distinct:
  "distinct (map f (insertBy cmp x xs)) = (f x \<notin> f ` set xs \<and> distinct (map f xs))"
  by (induction xs) (auto simp: set_insertBy)

lemma distinct_map_arraySort: "distinct (map f (arraySort cmp xs)) = distinct (map f xs)"
  by (induction xs) (auto simp: map_fst_insertBy_distinct set_arraySort)

lemma sorted_wrt_insertBy:
  assumes tot: "\<forall>a\<in>A. \<forall>b\<in>A. cmp a b \<le> 0 \<or> cmp b a \<le> 0"
    and trans: "\<forall>a\<in>A. \<forall>b\<in>A. \<forall>c\<in>A. cmp a b \<le> 0 \<longrightarrow> cmp b c \<le> 0 \<longrightarrow> cmp a c \<le> 0"
    and x: "x \<in> A" and xs: "set xs \<subseteq> A"
    and sorted: "sorted_wrt (\<lambda>a b. cmp a b \<le> 0) xs"
  shows "sorted_wrt (\<lambda>a b. cmp a b \<le> 0) (insertBy cmp x xs)"
  using xs sorted
proof (induction xs)
  case Nil
  then show ?case by simp
next
  case (Cons y ys)
  have y: "y \<in> A" using Cons.prems(1) by simp
  show ?case
  proof (cases "cmp x y \<le> 0")
    case True
    have "\<forall>z\<in>set ys. cmp x z \<le> 0"
    proof
      fix z assume z: "z \<in> set ys"
      with Cons.prems have "cmp y z \<le> 0" by simp
      moreover have "z \<in> A" using Cons.prems(1) z by auto
      ultimately show "cmp x z \<le> 0" using True x y trans by blast
    qed
    with True Cons.prems show ?thesis by simp
  next
    case False
    with tot x y have yx: "cmp y x \<le> 0" by blast
    from Cons have "sorted_wrt (\<lambda>a b. cmp a b \<le> 0) (insertBy cmp x ys)" by simp
    with False yx Cons.prems show ?thesis by (auto simp: set_insertBy)
  qed
qed

lemma sorted_wrt_arraySort:
  assumes tot: "\<forall>a\<in>A. \<forall>b\<in>A. cmp a b \<le> 0 \<or> cmp b a \<le> 0"
    and trans: "\<forall>a\<in>A. \<forall>b\<in>A. \<forall>c\<in>A. cmp a b \<le> 0 \<longrightarrow> cmp b c \<le> 0 \<longrightarrow> cmp a c \<le> 0"
    and xs: "set xs \<subseteq> A"
  shows "sorted_wrt (\<lambda>a b. cmp a b \<le> 0) (arraySort cmp xs)"
  using xs
proof (induction xs)
  case Nil
  then show ?case by simp
next
  case (Cons x xs)
  then have "sorted_wrt (\<lambda>a b. cmp a b \<le> 0) (arraySort cmp xs)" by simp
  moreover have "set (arraySort cmp xs) \<subseteq> A" using Cons.prems by (simp add: set_arraySort)
  moreover have "x \<in> A" using Cons.prems by simp
  ultimately have "sorted_wrt (\<lambda>a b. cmp a b \<le> 0) (insertBy cmp x (arraySort cmp xs))"
    using sorted_wrt_insertBy [OF tot trans] by blast
  then show ?case by simp
qed

lemma sorted_wrt_unique:
  assumes asym: "\<And>a b. P a b \<Longrightarrow> \<not> P b a"
  shows "sorted_wrt P xs \<Longrightarrow> sorted_wrt P ys \<Longrightarrow> set xs = set ys \<Longrightarrow> xs = ys"
proof (induction xs arbitrary: ys)
  case Nil
  then show ?case by simp
next
  case (Cons x xs)
  then obtain y ys' where ys: "ys = y # ys'" by (cases ys) auto
  have irrefl: "\<And>a. \<not> P a a" using asym by blast
  have xy: "x = y"
  proof (rule ccontr)
    assume ne: "x \<noteq> y"
    from Cons.prems(3) ys ne have "x \<in> set ys'" and "y \<in> set xs" by auto
    with Cons.prems(1,2) ys have "P y x" and "P x y" by auto
    with asym show False by blast
  qed
  have "x \<notin> set xs" using Cons.prems(1) irrefl by auto
  moreover have "y \<notin> set ys'" using Cons.prems(2) ys irrefl by auto
  ultimately have "set xs = set ys'" using Cons.prems(3) ys xy by auto
  with Cons.IH [of ys'] Cons.prems(1,2) ys have "xs = ys'" by simp
  with xy ys show ?case by simp
qed

lemma entryCompare_le:
  assumes "(lc (fst a) (fst b) < 0 \<longleftrightarrow> fst a < fst b)" and "(lc (fst a) (fst b) = 0 \<longleftrightarrow> fst a = fst b)"
  shows "entryCompare lc a b \<le> 0 \<longleftrightarrow> snd b < snd a \<or> (snd a = snd b \<and> fst a \<le> fst b)"
proof (cases "snd a = snd b")
  case True
  have "lc (fst a) (fst b) \<le> 0 \<longleftrightarrow> fst a \<le> fst b"
    using assms by (auto simp: order.order_iff_strict)
  with True show ?thesis by (simp add: entryCompare_def)
next
  case False
  then show ?thesis by (auto simp: entryCompare_def)
qed

lemma arraySort_entryCompare_ranked:
  assumes keys: "distinct (map fst m)"
    and lex: "\<forall>a\<in>fst ` set m. \<forall>b\<in>fst ` set m. (lc a b < 0 \<longleftrightarrow> a < b) \<and> (lc a b = 0 \<longleftrightarrow> a = b)"
  shows "sorted_wrt (\<lambda>a b. snd b < snd a \<or> (snd a = snd b \<and> fst a < fst b))
           (arraySort (entryCompare lc) m)"
proof -
  let ?R = "\<lambda>a b. entryCompare lc a b \<le> 0"
  have le: "\<And>a b. a \<in> set m \<Longrightarrow> b \<in> set m \<Longrightarrow>
      entryCompare lc a b \<le> 0 \<longleftrightarrow> snd b < snd a \<or> (snd a = snd b \<and> fst a \<le> fst b)"
    using lex by (intro entryCompare_le) auto
  have tot: "\<forall>a\<in>set m. \<forall>b\<in>set m. entryCompare lc a b \<le> 0 \<or> entryCompare lc b a \<le> 0"
    using le by auto
  have trans: "\<forall>a\<in>set m. \<forall>b\<in>set m. \<forall>c\<in>set m.
      entryCompare lc a b \<le> 0 \<longrightarrow> entryCompare lc b c \<le> 0 \<longrightarrow> entryCompare lc a c \<le> 0"
    using le by auto
  have sorted: "sorted_wrt ?R (arraySort (entryCompare lc) m)"
    using sorted_wrt_arraySort [OF tot trans] by simp
  have dist: "distinct (map fst (arraySort (entryCompare lc) m))"
    using keys by (simp add: distinct_map_arraySort)
  have sub: "set (arraySort (entryCompare lc) m) \<subseteq> set m"
    by (simp add: set_arraySort)
  have "sorted_wrt ?R xs \<Longrightarrow> distinct (map fst xs) \<Longrightarrow> set xs \<subseteq> set m \<Longrightarrow>
      sorted_wrt (\<lambda>a b. snd b < snd a \<or> (snd a = snd b \<and> fst a < fst b)) xs" for xs
  proof (induction xs)
    case Nil
    then show ?case by simp
  next
    case (Cons x xs)
    have "\<forall>y\<in>set xs. snd y < snd x \<or> (snd x = snd y \<and> fst x < fst y)"
    proof
      fix y assume y: "y \<in> set xs"
      with Cons.prems have "entryCompare lc x y \<le> 0" and "fst x \<noteq> fst y" and "x \<in> set m" and "y \<in> set m"
        by auto
      with le [of x y] show "snd y < snd x \<or> (snd x = snd y \<and> fst x < fst y)" by auto
    qed
    with Cons show ?case by simp
  qed
  from this [OF sorted dist sub] show ?thesis .
qed

lemma pointsCompare_le: "pointsCompare a b \<le> 0 \<longleftrightarrow> snd b \<le> snd a"
  by (simp add: pointsCompare_def)

lemma arraySort_pointsCompare_sorted:
  "sorted_wrt (\<lambda>a b. snd b \<le> snd a) (arraySort pointsCompare m)"
proof -
  have "sorted_wrt (\<lambda>a b. pointsCompare a b \<le> 0) (arraySort pointsCompare m)"
    by (rule sorted_wrt_arraySort [where A = UNIV]) (auto simp: pointsCompare_le)
  then show ?thesis by (simp add: pointsCompare_le)
qed

lemma filter_insertBy_pointsCompare:
  "filter (\<lambda>e. snd e = p) (insertBy pointsCompare x xs) =
     (if snd x = p then x # filter (\<lambda>e. snd e = p) xs else filter (\<lambda>e. snd e = p) xs)"
  if "sorted_wrt (\<lambda>a b. snd b \<le> snd a) xs"
  using that
proof (induction xs)
  case Nil
  then show ?case by simp
next
  case (Cons y ys)
  then show ?case by (auto simp: pointsCompare_def)
qed

lemma arraySort_pointsCompare_stable:
  "filter (\<lambda>e. snd e = p) (arraySort pointsCompare m) = filter (\<lambda>e. snd e = p) m"
  by (induction m) (simp_all add: filter_insertBy_pointsCompare arraySort_pointsCompare_sorted)

lemma length_renderLinesFrom: "length (renderLinesFrom nm i rs) = length rs"
  by (induction rs arbitrary: i) auto

lemma length_embedFieldsFrom: "length (embedFieldsFrom i rs) = length rs"
  by (induction rs arbitrary: i) auto

lemma length_topN: "length (topN lc m n) \<le> length m"
  by (simp add: topN_def length_arraySort)

lemma set_topN: "set (topN lc m n) \<subseteq> set m"
  using set_take_subset [of _ "arraySort (entryCompare lc) m"] by (simp add: topN_def set_arraySort)

lemma showNat_0: "showNat 0 = ''0''"
  by (simp add: showNat.simps)

subsection \<open>Maps and sets\<close>

lemma distinct_setAdd: "distinct s \<Longrightarrow> distinct (setAdd s x)"
  by (simp add: setAdd_def)

lemma set_setAdd: "set (setAdd s x) = insert x (set s)"
  by (auto simp: setAdd_def)

lemma mapGet_mapSet: "mapGet (mapSet m k v) k' = (if k' = k then Some v else mapGet m k')"
  by (induction m) auto

lemma pointsOf_mapSet: "pointsOf (mapSet m k v) k' = (if k' = k then v else pointsOf m k')"
  by (simp add: pointsOf_def mapGet_mapSet)

lemma map_fst_mapSet:
  "map fst (mapSet m k v) = (if k \<in> set (map fst m) then map fst m else map fst m @ [k])"
  by (induction m) fastforce+

lemma keys_mapSet: "fst ` set (mapSet m k v) = insert k (fst ` set m)"
proof -
  have "set (map fst (mapSet m k v)) = insert k (set (map fst m))"
    unfolding map_fst_mapSet by auto
  then show ?thesis by simp
qed

lemma set_mapSet_subset: "set (mapSet m k v) \<subseteq> insert (k, v) (set m)"
  by (induction m) (auto split: if_splits)

lemma distinct_keys_mapSet: "distinct (map fst m) \<Longrightarrow> distinct (map fst (mapSet m k v))"
  unfolding map_fst_mapSet by simp

lemma mapGet_member: "distinct (map fst m) \<Longrightarrow> (k, v) \<in> set m \<Longrightarrow> mapGet m k = Some v"
  by (induction m) (auto simp: rev_image_eqI)

lemma pointsOf_member: "distinct (map fst m) \<Longrightarrow> (k, v) \<in> set m \<Longrightarrow> pointsOf m k = v"
  by (simp add: pointsOf_def mapGet_member)



subsection \<open>The reactor set of a message\<close>

lemma yielded_append: "yielded (xs @ ys) = yielded xs @ yielded ys"
  by (induction xs rule: yielded.induct) auto

lemma distinct_addNonBots: "distinct users \<Longrightarrow> distinct (addNonBots batch users)"
  by (induction batch arbitrary: users) (auto simp: distinct_setAdd)

lemma set_addNonBots:
  "set (addNonBots batch users) = set users \<union> {u_id u |u. u \<in> set batch \<and> \<not> u_bot u}"
  by (induction batch arbitrary: users) (auto simp: set_setAdd)

lemma nonBotReactor_snoc:
  "nonBotReactor env (evs @ [ev]) uid \<longleftrightarrow> nonBotReactor env evs uid \<or> nonBotIn env ev uid"
  by (auto simp: nonBotReactor_def)

lemma nonBotReactor_record:
  assumes "nonBotReactor env evs uid"
  shows "\<exists>ch mid ident c batch u. fetchReactionUserPage env ch mid ident c = OkJson batch
           \<and> u \<in> set batch \<and> u_id u = uid \<and> \<not> u_bot u"
proof -
  from assms obtain ev where "ev \<in> set evs" and ev: "nonBotIn env ev uid"
    by (auto simp: nonBotReactor_def)
  from ev obtain ch mid ident c where g: "ev = GetReactions ch mid ident c"
    by (cases ev) (simp_all add: nonBotIn_def)
  with ev obtain batch where "fetchReactionUserPage env ch mid ident c = OkJson batch"
    and "\<exists>u\<in>set batch. u_id u = uid \<and> \<not> u_bot u"
    by (cases "fetchReactionUserPage env ch mid ident c") (simp_all add: nonBotIn_def)
  then show ?thesis by blast
qed

lemma usersInv_step:
  assumes "usersInv env users evs"
    and "fetchReactionUserPage env ch mid ident c = OkJson batch"
  shows "usersInv env (addNonBots batch users) (evs @ [GetReactions ch mid ident c])"
  using assms
  by (auto simp: usersInv_def distinct_addNonBots set_addNonBots nonBotReactor_snoc
      nonBotIn_def yielded_append)

lemma reactionUsersLoop_usersInv:
  assumes "reactionUsersLoop env ch mid ident after users evs = Some (Inr users', evs')"
    and "usersInv env users evs"
  shows "usersInv env users' evs'"
proof -
  have "reactionUsersLoop env ch mid ident after users evs = Some r \<Longrightarrow>
      (\<forall>users' evs'. r = (Inr users', evs') \<longrightarrow> usersInv env users evs \<longrightarrow> usersInv env users' evs')" for r
  proof (induction rule: reactionUsersLoop.raw_induct [rotated 1, consumes 1])
    case (1 loop env ch mid ident after users evs r)
    show ?case
    proof (cases "fetchReactionUserPage env ch mid ident (cursorParam after)")
      case (NotOk status statusText)
      with 1(2) show ?thesis by auto
    next
      case (OkJson batch)
      show ?thesis
      proof (intro allI impI)
        fix users' evs'
        assume r: "r = (Inr users', evs')" and inv: "usersInv env users evs"
        have step: "usersInv env (addNonBots batch users)
            (evs @ [GetReactions ch mid ident (cursorParam after)])"
          using usersInv_step [OF inv OkJson] .
        show "usersInv env users' evs'"
        proof (cases "length batch < 100")
          case True
          with 1(2) OkJson r step show ?thesis by auto
        next
          case False
          with 1(2) OkJson have
            "loop env ch mid ident (Some (u_id (last batch))) (addNonBots batch users)
               (evs @ [GetReactions ch mid ident (cursorParam after)]) = Some r" by simp
          from 1(1) [OF this] r step show ?thesis by blast
        qed
      qed
    qed
  qed
  with assms show ?thesis by blast
qed

lemma forReactions_usersInv:
  assumes "forReactions env ch mid rs users evs = Some (Inr users', evs')"
    and "usersInv env users evs"
  shows "usersInv env users' evs'"
  using assms
proof (induction rs arbitrary: users evs)
  case Nil
  then show ?case by simp
next
  case (Cons r rs)
  show ?case
  proof (cases "r_emoji r")
    case None
    with Cons show ?thesis by simp
  next
    case (Some e)
    show ?thesis
    proof (cases "r_count r = 0")
      case True
      with Cons Some show ?thesis by simp
    next
      case False
      from Cons.prems(1) Some False obtain users1 evs1 where
        loop: "reactionUsersLoop env ch mid (emojiIdent env e) None users evs = Some (Inr users1, evs1)"
        and rest: "forReactions env ch mid rs users1 evs1 = Some (Inr users', evs')"
        by (auto split: option.splits sum.splits prod.splits)
      from reactionUsersLoop_usersInv [OF loop Cons.prems(2)] have "usersInv env users1 evs1" .
      from Cons.IH [OF rest this] show ?thesis .
    qed
  qed
qed

lemma getReactorsForMessage_usersInv:
  assumes "getReactorsForMessage env ch mid rs = Some (Inr users, evs)"
  shows "usersInv env users evs"
proof -
  have init: "usersInv env [] []"
    by (simp add: usersInv_def nonBotReactor_def)
  show ?thesis
  proof (cases rs)
    case None
    with assms init show ?thesis by (simp add: getReactorsForMessage_def)
  next
    case (Some l)
    show ?thesis
    proof (cases "l = []")
      case True
      with assms Some init show ?thesis by (simp add: getReactorsForMessage_def)
    next
      case False
      with assms Some have "forReactions env ch mid l [] [] = Some (Inr users, evs)"
        by (simp add: getReactorsForMessage_def)
      from forReactions_usersInv [OF this init] show ?thesis .
    qed
  qed
qed

subsection \<open>A rule for the loops of the paginator\<close>

lemma ensures_simps [simp]:
  "ensures I Q (Inl e, evs) = Q e evs"
  "ensures I Q (Inr a, evs) = I a evs"
  by (simp_all add: ensures_def)

lemma forBatch_rule:
  assumes run: "forBatch sinceTs body batch acc evs = Some r"
    and inv: "I acc evs"
    and yield: "\<And>msg acc evs r. I acc evs \<Longrightarrow> sinceTs \<le> m_timestamp msg \<Longrightarrow> body msg acc = Some r \<Longrightarrow>
        ensures (\<lambda>acc' bevs. I acc' (evs @ Yield msg # bevs)) (\<lambda>e bevs. Q e (evs @ Yield msg # bevs)) r"
  shows "ensures (\<lambda>ra evs'. I (snd ra) evs') Q r"
  using run inv
proof (induction batch arbitrary: acc evs)
  case Nil
  then show ?case by auto
next
  case (Cons msg rest)
  show ?case
  proof (cases "m_timestamp msg < sinceTs")
    case True
    with Cons.prems show ?thesis by auto
  next
    case False
    with Cons.prems(1) obtain rb where rb: "body msg acc = Some rb"
      by (cases "body msg acc") auto
    from False have "sinceTs \<le> m_timestamp msg" by simp
    from yield [OF Cons.prems(2) this rb]
    have p: "ensures (\<lambda>acc' bevs. I acc' (evs @ Yield msg # bevs)) (\<lambda>e bevs. Q e (evs @ Yield msg # bevs)) rb" .
    obtain o1 bevs where rbe: "rb = (o1, bevs)" by (cases rb)
    show ?thesis
    proof (cases o1)
      case (Inl e)
      with Cons.prems(1) False rb rbe p show ?thesis by auto
    next
      case (Inr acc')
      with Cons.prems(1) False rb rbe have
        "forBatch sinceTs body rest acc' (evs @ Yield msg # bevs) = Some r" by simp
      moreover from p rbe Inr have "I acc' (evs @ Yield msg # bevs)" by simp
      ultimately show ?thesis by (rule Cons.IH)
    qed
  qed
qed

lemma iterateMessages_rule:
  assumes run: "iterateMessages env ch sinceTs body before acc evs = Some r"
    and inv: "I acc evs"
    and page: "\<And>acc evs c batch. I acc evs \<Longrightarrow> fetchMessagePage env ch c = OkJson batch \<Longrightarrow>
        I acc (evs @ [GetMessages ch c])"
    and fail: "\<And>acc evs c s t. I acc evs \<Longrightarrow> fetchMessagePage env ch c = NotOk s t \<Longrightarrow>
        Q (GetMessagesFailed s) (evs @ [GetMessages ch c])"
    and yield: "\<And>msg acc evs r. I acc evs \<Longrightarrow> sinceTs \<le> m_timestamp msg \<Longrightarrow> body msg acc = Some r \<Longrightarrow>
        ensures (\<lambda>acc' bevs. I acc' (evs @ Yield msg # bevs)) (\<lambda>e bevs. Q e (evs @ Yield msg # bevs)) r"
  shows "ensures I Q r"
proof -
  have "iterateMessages env' ch' since' body' before acc evs = Some r \<Longrightarrow>
      env' = env \<longrightarrow> ch' = ch \<longrightarrow> since' = sinceTs \<longrightarrow> body' = body \<longrightarrow> I acc evs \<longrightarrow> ensures I Q r"
    for env' ch' since' body' before acc evs r
  proof (induction rule: iterateMessages.raw_induct [rotated 1, consumes 1])
    case (1 loop env' ch' since' body' before acc evs r)
    show ?case
    proof (intro impI)
      assume eqs: "env' = env" "ch' = ch" "since' = sinceTs" "body' = body" and inv: "I acc evs"
      let ?req = "GetMessages ch (cursorParam before)"
      show "ensures I Q r"
      proof (cases "fetchMessagePage env ch (cursorParam before)")
        case (NotOk s t)
        with 1(2) eqs fail [OF inv NotOk] show ?thesis by auto
      next
        case (OkJson batch)
        have inv1: "I acc (evs @ [?req])" by (rule page [OF inv OkJson])
        show ?thesis
        proof (cases "batch = []")
          case True
          with 1(2) eqs OkJson inv1 show ?thesis by auto
        next
          case False
          with 1(2) eqs OkJson obtain rb where
            rb: "forBatch sinceTs body batch acc (evs @ [?req]) = Some rb"
            by (cases "forBatch sinceTs body batch acc (evs @ [?req])") auto
          have p: "ensures (\<lambda>ra evs'. I (snd ra) evs') Q rb"
            by (rule forBatch_rule [OF rb inv1 yield])
          obtain o1 evs1 where rbe: "rb = (o1, evs1)" by (cases rb)
          show ?thesis
          proof (cases o1)
            case (Inl e)
            with 1(2) eqs OkJson False rb rbe p show ?thesis by auto
          next
            case (Inr ra)
            obtain returned acc1 where ra: "ra = (returned, acc1)" by (cases ra)
            from p rbe Inr ra have inv2: "I acc1 evs1" by simp
            show ?thesis
            proof (cases returned)
              case True
              with 1(2) eqs OkJson False rb rbe Inr ra inv2 show ?thesis by auto
            next
              case notret: False
              with 1(2) eqs OkJson False rb rbe Inr ra have
                "loop env ch sinceTs body (Some (m_id (last batch))) acc1 evs1 = Some r" by simp
              from 1(1) [OF this] inv2 show ?thesis by simp
            qed
          qed
        qed
      qed
    qed
  qed
  from this [OF run] inv show ?thesis by simp
qed




lemma filter_fresh_prefix:
  assumes fresh: "\<forall>msg\<in>set pre. sinceTs \<le> m_timestamp msg"
    and stale: "m_timestamp old < (sinceTs :: int)"
  shows "filter (\<lambda>msg. sinceTs \<le> m_timestamp msg) (pre @ old # later)
           = pre @ filter (\<lambda>msg. sinceTs \<le> m_timestamp msg) later"
  using assms by simp


subsection \<open>The ledger of a scan\<close>

lemma ledgerInv_award1:
  assumes "ledgerInv (points, seen)"
  shows "ledgerInv (mapSet points uid (pointsOf points uid + 1), setAdd seen uid)"
proof -
  have "\<forall>e\<in>set (mapSet points uid (pointsOf points uid + 1)). 0 < snd e"
    using assms set_mapSet_subset [of points uid "pointsOf points uid + 1"]
    by (auto simp: ledgerInv_def)
  with assms show ?thesis
    by (simp add: ledgerInv_def distinct_keys_mapSet distinct_setAdd set_setAdd keys_mapSet)
qed

lemma award_ledger:
  assumes "ledgerInv st" and "distinct reactors"
  shows "ledgerInv (award reactors st)
       \<and> (\<forall>uid. pointsOf (fst (award reactors st)) uid
             = pointsOf (fst st) uid + (if uid \<in> set reactors then 1 else 0))"
  using assms
proof (induction reactors st rule: award.induct)
  case (1 st)
  then show ?case by simp
next
  case (2 uid reactors points seen)
  have "ledgerInv (mapSet points uid (pointsOf points uid + 1), setAdd seen uid)"
    using 2(2) by (rule ledgerInv_award1)
  moreover have "distinct reactors" and "uid \<notin> set reactors" using 2(3) by auto
  ultimately show ?case using 2(1) by (auto simp: pointsOf_mapSet)
qed

lemma reactorOf_no_reactions:
  "m_reactions msg = None \<or> m_reactions msg = Some [] \<Longrightarrow> \<not> reactorOf env ch msg uid"
  by (auto simp: reactorOf_def getReactorsForMessage_def nonBotReactor_def)

lemma scanBody_step:
  assumes body: "scanBody env ch msg st = Some (Inr st', bevs)"
    and inv: "ledgerInv st"
  shows "ledgerInv st' \<and> yielded bevs = []
       \<and> (\<forall>uid. pointsOf (fst st') uid
             = pointsOf (fst st) uid + (if reactorOf env ch msg uid then 1 else 0))"
proof (cases "m_reactions msg = None \<or> m_reactions msg = Some []")
  case True
  with body have "st' = st" and "bevs = []" by (auto simp: scanBody_def)
  with inv True show ?thesis by (auto simp: reactorOf_no_reactions)
next
  case False
  then obtain rs where rs: "m_reactions msg = Some rs" and ne: "rs \<noteq> []" by auto
  with body obtain reactors where
    g: "getReactorsForMessage env ch (m_id msg) (Some rs) = Some (Inr reactors, bevs)"
    and st': "st' = award reactors st"
    by (auto simp: scanBody_def split: option.splits sum.splits prod.splits)
  from getReactorsForMessage_usersInv [OF g] have u: "usersInv env reactors bevs" .
  then have d: "distinct reactors" and y: "yielded bevs = []"
    and m: "\<And>uid. uid \<in> set reactors \<longleftrightarrow> nonBotReactor env bevs uid"
    by (auto simp: usersInv_def)
  have "\<And>uid. reactorOf env ch msg uid \<longleftrightarrow> uid \<in> set reactors"
    using g rs m by (simp add: reactorOf_def)
  with award_ledger [OF inv d] st' y show ?thesis by simp
qed

lemma scanInv_yield:
  assumes inv: "scanInv env ch sinceTs st evs"
    and ts: "sinceTs \<le> m_timestamp msg"
    and body: "scanBody env ch msg st = Some r"
  shows "ensures (\<lambda>st' bevs. scanInv env ch sinceTs st' (evs @ Yield msg # bevs)) (\<lambda>e bevs. True) r"
proof -
  obtain o1 bevs where r: "r = (o1, bevs)" by (cases r)
  show ?thesis
  proof (cases o1)
    case (Inl e)
    with r show ?thesis by simp
  next
    case (Inr st')
    from inv have l: "ledgerInv st" by (simp add: scanInv_def)
    from body r Inr have "scanBody env ch msg st = Some (Inr st', bevs)" by simp
    from scanBody_step [OF this l] inv ts r Inr show ?thesis
      by (simp add: scanInv_def yielded_append)
  qed
qed

lemma scanLoop_scanInv:
  assumes "scanLoop env sinceTs = Some (Inr st, evs)"
  shows "scanInv env (SOURCE_CHANNEL_ID env) sinceTs st evs"
proof -
  let ?ch = "SOURCE_CHANNEL_ID env"
  have run: "iterateMessages env ?ch sinceTs (scanBody env ?ch) None ([], []) [] = Some (Inr st, evs)"
    using assms by (simp add: scanLoop_def)
  have init: "scanInv env ?ch sinceTs ([], []) []"
    by (simp add: scanInv_def ledgerInv_def pointsOf_def)
  have "ensures (scanInv env ?ch sinceTs) (\<lambda>e evs. True) (Inr st, evs)"
  proof (rule iterateMessages_rule [where I = "scanInv env ?ch sinceTs" and Q = "\<lambda>e evs. True",
        OF run init])
    show "scanInv env ?ch sinceTs acc (evs @ [GetMessages ?ch c])"
      if "scanInv env ?ch sinceTs acc evs" for acc evs c
      using that by (simp add: scanInv_def yielded_append)
  next
    show True ..
  next
    show "ensures (\<lambda>acc' bevs. scanInv env ?ch sinceTs acc' (evs @ Yield msg # bevs))
            (\<lambda>e bevs. True) r"
      if "scanInv env ?ch sinceTs acc evs" and "sinceTs \<le> m_timestamp msg"
        and "scanBody env ?ch msg acc = Some r" for msg acc evs r
      using that by (rule scanInv_yield)
  qed
  then show ?thesis by simp
qed

lemma ledger_sizes:
  assumes "ledgerInv (points, seen)"
  shows "length seen = length points"
proof -
  from assms have d1: "distinct seen" and d2: "distinct (map fst points)"
    and eq: "set seen = set (map fst points)" by (simp_all add: ledgerInv_def)
  have "length seen = card (set seen)" using d1 by (simp add: distinct_card)
  also have "\<dots> = card (set (map fst points))" using eq by simp
  also have "\<dots> = length (map fst points)" using d2 by (rule distinct_card)
  finally show ?thesis by simp
qed

lemma runScan_Inr:
  assumes "runScan env windowMs now = Some (Inr res, evs)"
  shows "\<exists>points seen.
      scanLoop env (now - (case windowMs of None \<Rightarrow> weekMs | Some w \<Rightarrow> w)) = Some (Inr (points, seen), evs)
      \<and> res = \<lparr>rows = topN (localeCompare env) points (Some 10), names = buildNameMap seen,
               uniqueReactors = length seen\<rparr>"
  using assms
  by (auto simp: runScan_def split: if_splits option.splits sum.splits prod.splits)

lemma mapGet_Some_member: "mapGet m k = Some v \<Longrightarrow> (k, v) \<in> set m"
  by (induction m) (auto split: if_splits)

lemma pointsOf_pos_key: "0 < pointsOf m k \<Longrightarrow> k \<in> fst ` set m"
proof -
  assume "0 < pointsOf m k"
  then obtain v where "mapGet m k = Some v"
    by (cases "mapGet m k") (simp_all add: pointsOf_def)
  then have "(k, v) \<in> set m" by (rule mapGet_Some_member)
  then show ?thesis by (rule rev_image_eqI) simp
qed

lemma seen_reactors_iff:
  assumes inv: "scanInv env ch sinceTs (points, seen) evs"
  shows "uid \<in> set seen \<longleftrightarrow> (\<exists>msg\<in>set (yielded evs). reactorOf env ch msg uid)"
proof
  assume "uid \<in> set seen"
  with inv obtain v where "(uid, v) \<in> set points" and "0 < v" and "distinct (map fst points)"
    by (auto simp: scanInv_def ledgerInv_def)
  then have "0 < pointsOf points uid" by (simp add: pointsOf_member)
  with inv have "filter (\<lambda>msg. reactorOf env ch msg uid) (yielded evs) \<noteq> []"
    by (auto simp: scanInv_def)
  then show "\<exists>msg\<in>set (yielded evs). reactorOf env ch msg uid"
    by (simp add: filter_empty_conv)
next
  assume "\<exists>msg\<in>set (yielded evs). reactorOf env ch msg uid"
  then have "filter (\<lambda>msg. reactorOf env ch msg uid) (yielded evs) \<noteq> []"
    by (simp add: filter_empty_conv)
  then have "0 < length (filter (\<lambda>msg. reactorOf env ch msg uid) (yielded evs))" by simp
  with inv have "0 < pointsOf points uid" by (simp add: scanInv_def)
  then have "uid \<in> fst ` set points" by (rule pointsOf_pos_key)
  with inv show "uid \<in> set seen" by (simp add: scanInv_def ledgerInv_def)
qed


subsection \<open>Runs that stop at a failed request\<close>

lemma allOk_append: "allOk env (xs @ ys) \<longleftrightarrow> allOk env xs \<and> allOk env ys"
  by (auto simp: allOk_def)

lemma allOk_Nil: "allOk env []"
  by (simp add: allOk_def)

lemma abortedAt_snoc:
  "allOk env evs \<Longrightarrow> failedStatus env ev = Some status \<Longrightarrow> \<not> isPost ev \<Longrightarrow>
     abortedAt env (errorFor ev status) (evs @ [ev])"
  by (simp add: abortedAt_def)

lemma abortedAt_prepend:
  "allOk env evs \<Longrightarrow> abortedAt env e bevs \<Longrightarrow> abortedAt env e (evs @ bevs)"
  by (auto simp: abortedAt_def butlast_append allOk_append)

lemma abortedAt_failed:
  assumes "abortedAt env e evs" and "ev \<in> set evs" and "failedStatus env ev = Some status"
  shows "e = errorFor ev status"
proof -
  from assms(1) have ne: "evs \<noteq> []" and ok: "allOk env (butlast evs)"
    and l: "\<exists>s. failedStatus env (last evs) = Some s \<and> e = errorFor (last evs) s"
    by (simp_all add: abortedAt_def)
  from ne have "evs = butlast evs @ [last evs]" by simp
  with assms(2) have "ev \<in> set (butlast evs) \<or> ev = last evs"
    by (metis Un_iff empty_iff empty_set insert_iff list.simps(15) set_append)
  with ok assms(3) have "ev = last evs" by (auto simp: allOk_def)
  with l assms(3) show ?thesis by auto
qed

lemma abortedAt_noPost: "abortedAt env e evs \<Longrightarrow> ev \<in> set evs \<Longrightarrow> \<not> isPost ev"
proof -
  assume a: "abortedAt env e evs" and m: "ev \<in> set evs"
  then have ne: "evs \<noteq> []" by (auto simp: abortedAt_def)
  then have "evs = butlast evs @ [last evs]" by simp
  with m have "ev \<in> set (butlast evs) \<or> ev = last evs"
    by (metis Un_iff empty_iff empty_set insert_iff list.simps(15) set_append)
  with a show ?thesis by (auto simp: abortedAt_def allOk_def)
qed

lemma reactionUsersLoop_aborts:
  assumes "reactionUsersLoop env ch mid ident after users evs = Some r"
    and "allOk env evs"
  shows "ensures (\<lambda>users' evs'. allOk env evs') (abortedAt env) r"
proof -
  have "reactionUsersLoop env ch mid ident after users evs = Some r \<Longrightarrow>
      allOk env evs \<longrightarrow> ensures (\<lambda>users' evs'. allOk env evs') (abortedAt env) r" for r
  proof (induction rule: reactionUsersLoop.raw_induct [rotated 1, consumes 1])
    case (1 loop env ch mid ident after users evs r)
    let ?req = "GetReactions ch mid ident (cursorParam after)"
    show ?case
    proof
      assume ok: "allOk env evs"
      show "ensures (\<lambda>users' evs'. allOk env evs') (abortedAt env) r"
      proof (cases "fetchReactionUserPage env ch mid ident (cursorParam after)")
        case (NotOk status statusText)
        then have "failedStatus env ?req = Some status" by (simp add: failedStatus_def)
        from abortedAt_snoc [OF ok this] have "abortedAt env (GetReactionsFailed status) (evs @ [?req])"
          by (simp add: errorFor_def isPost_def)
        with 1(2) NotOk show ?thesis by auto
      next
        case (OkJson batch)
        then have "failedStatus env ?req = None" by (simp add: failedStatus_def)
        with ok have ok1: "allOk env (evs @ [?req])" by (simp add: allOk_def isPost_def)
        show ?thesis
        proof (cases "length batch < 100")
          case True
          with 1(2) OkJson ok1 show ?thesis by auto
        next
          case False
          with 1(2) OkJson have
            "loop env ch mid ident (Some (u_id (last batch))) (addNonBots batch users) (evs @ [?req]) = Some r"
            by simp
          from 1(1) [OF this] ok1 show ?thesis by simp
        qed
      qed
    qed
  qed
  with assms show ?thesis by blast
qed

lemma forReactions_aborts:
  assumes "forReactions env ch mid rs users evs = Some r" and "allOk env evs"
  shows "ensures (\<lambda>users' evs'. allOk env evs') (abortedAt env) r"
  using assms
proof (induction rs arbitrary: users evs)
  case Nil
  then show ?case by auto
next
  case (Cons x rs)
  show ?case
  proof (cases "r_emoji x")
    case None
    with Cons show ?thesis by simp
  next
    case (Some e)
    show ?thesis
    proof (cases "r_count x = 0")
      case True
      with Cons Some show ?thesis by simp
    next
      case False
      with Cons.prems(1) Some obtain r1 where
        loop: "reactionUsersLoop env ch mid (emojiIdent env e) None users evs = Some r1"
        by (cases "reactionUsersLoop env ch mid (emojiIdent env e) None users evs") auto
      from reactionUsersLoop_aborts [OF loop Cons.prems(2)]
      have p: "ensures (\<lambda>users' evs'. allOk env evs') (abortedAt env) r1" .
      obtain o1 evs1 where r1: "r1 = (o1, evs1)" by (cases r1)
      show ?thesis
      proof (cases o1)
        case (Inl err)
        with Cons.prems(1) Some False loop r1 p show ?thesis by auto
      next
        case (Inr users1)
        with Cons.prems(1) Some False loop r1 have
          "forReactions env ch mid rs users1 evs1 = Some r" by simp
        moreover from p r1 Inr have "allOk env evs1" by simp
        ultimately show ?thesis by (rule Cons.IH)
      qed
    qed
  qed
qed

lemma scanBody_aborts:
  assumes "scanBody env ch msg st = Some r"
  shows "ensures (\<lambda>st' evs'. allOk env evs') (abortedAt env) r"
proof (cases "m_reactions msg")
  case None
  with assms show ?thesis by (auto simp: scanBody_def allOk_Nil)
next
  case (Some rs)
  show ?thesis
  proof (cases "rs = []")
    case True
    with assms Some show ?thesis by (auto simp: scanBody_def allOk_Nil)
  next
    case False
    with assms Some obtain r1 where f: "forReactions env ch (m_id msg) rs [] [] = Some r1"
      by (cases "forReactions env ch (m_id msg) rs [] []")
        (auto simp: scanBody_def getReactorsForMessage_def)
    from forReactions_aborts [OF f allOk_Nil]
    have p: "ensures (\<lambda>users' evs'. allOk env evs') (abortedAt env) r1" .
    obtain o1 evs1 where r1: "r1 = (o1, evs1)" by (cases r1)
    from assms Some False f r1 p show ?thesis
      by (cases o1) (auto simp: scanBody_def getReactorsForMessage_def)
  qed
qed

lemma scanLoop_aborts:
  assumes run: "scanLoop env sinceTs = Some r"
  shows "ensures (\<lambda>st evs. allOk env evs) (abortedAt env) r"
proof -
  let ?ch = "SOURCE_CHANNEL_ID env"
  have run': "iterateMessages env ?ch sinceTs (scanBody env ?ch) None ([], []) [] = Some r"
    using run by (simp add: scanLoop_def)
  show ?thesis
  proof (rule iterateMessages_rule [where I = "\<lambda>st evs. allOk env evs" and Q = "abortedAt env",
        OF run' allOk_Nil])
    show "allOk env (evs @ [GetMessages ?ch c])"
      if "allOk env evs" and "fetchMessagePage env ?ch c = OkJson batch" for evs c batch
      using that by (simp add: allOk_def failedStatus_def isPost_def)
  next
    show "abortedAt env (GetMessagesFailed s) (evs @ [GetMessages ?ch c])"
      if "allOk env evs" and "fetchMessagePage env ?ch c = NotOk s t" for evs c s t
    proof -
      from that(2) have "failedStatus env (GetMessages ?ch c) = Some s"
        by (simp add: failedStatus_def)
      from abortedAt_snoc [OF that(1) this] show ?thesis by (simp add: errorFor_def isPost_def)
    qed
  next
    show "ensures (\<lambda>acc' bevs. allOk env (evs @ Yield msg # bevs))
            (\<lambda>e bevs. abortedAt env e (evs @ Yield msg # bevs)) rb"
      if ok: "allOk env evs" and b: "scanBody env ?ch msg acc = Some rb" for msg acc evs rb
    proof -
      from scanBody_aborts [OF b]
      have p: "ensures (\<lambda>st' evs'. allOk env evs') (abortedAt env) rb" .
      have oky: "allOk env (evs @ [Yield msg])"
        using ok by (simp add: allOk_def failedStatus_def isPost_def)
      obtain o1 bevs where rb: "rb = (o1, bevs)" by (cases rb)
      show ?thesis
      proof (cases o1)
        case (Inl e)
        with p rb have "abortedAt env e bevs" by simp
        from abortedAt_prepend [OF oky this] Inl rb show ?thesis by simp
      next
        case (Inr st')
        with p rb have "allOk env bevs" by simp
        with oky have "allOk env ((evs @ [Yield msg]) @ bevs)" by (simp only: allOk_append)
        with Inr rb show ?thesis by simp
      qed
    qed
  qed
qed

lemma runScan_aborts:
  assumes run: "runScan env windowMs now = Some (r, evs)"
  shows "(case r of Inl e \<Rightarrow> evs = [] \<or> abortedAt env e evs | Inr res \<Rightarrow> allOk env evs)"
proof (cases "DISCORD_BOT_TOKEN env = [] \<or> SOURCE_CHANNEL_ID env = []")
  case True
  with run show ?thesis by (auto simp: runScan_def)
next
  case False
  with run obtain r1 where
    loop: "scanLoop env (now - (case windowMs of None \<Rightarrow> weekMs | Some w \<Rightarrow> w)) = Some r1"
    by (cases "scanLoop env (now - (case windowMs of None \<Rightarrow> weekMs | Some w \<Rightarrow> w))")
      (auto simp: runScan_def)
  from scanLoop_aborts [OF loop]
  have p: "ensures (\<lambda>st evs. allOk env evs) (abortedAt env) r1" .
  obtain o1 evs1 where r1: "r1 = (o1, evs1)" by (cases r1)
  from run False loop r1 p show ?thesis
    by (cases o1) (auto simp: runScan_def split: prod.splits)
qed

lemma recentLoop_aborts:
  assumes "recentLoop env ch oneWeekAgo limit lastId messages evs = Some r"
    and "allOk env evs"
  shows "ensures (\<lambda>msgs evs'. allOk env evs') (legacyAborted env) r"
proof -
  have "recentLoop env ch oneWeekAgo limit lastId messages evs = Some r \<Longrightarrow>
      allOk env evs \<longrightarrow> ensures (\<lambda>msgs evs'. allOk env evs') (legacyAborted env) r" for r
  proof (induction rule: recentLoop.raw_induct [rotated 1, consumes 1])
    case (1 loop env ch oneWeekAgo limit lastId messages evs r)
    let ?req = "GetMessages ch (cursorParam lastId)"
    show ?case
    proof
      assume ok: "allOk env evs"
      show "ensures (\<lambda>msgs evs'. allOk env evs') (legacyAborted env) r"
      proof (cases "fetchMessagePage env ch (cursorParam lastId)")
        case (NotOk status statusText)
        with ok have "legacyAborted env (FailedToFetchMessages statusText) (evs @ [?req])"
          by (auto simp: legacyAborted_def)
        with 1(2) NotOk show ?thesis by auto
      next
        case (OkJson batch)
        then have "failedStatus env ?req = None" by (simp add: failedStatus_def)
        with ok have ok1: "allOk env (evs @ [?req])" by (simp add: allOk_def isPost_def)
        show ?thesis
        proof (cases "batch = [] \<or> m_timestamp (last batch) < oneWeekAgo
            \<or> limit \<le> length (messages @ batch)")
          case True
          with 1(2) OkJson ok1 show ?thesis by (auto split: if_splits)
        next
          case False
          with 1(2) OkJson have
            "loop env ch oneWeekAgo limit (Some (m_id (last batch))) (messages @ batch) (evs @ [?req])
               = Some r" by simp
          from 1(1) [OF this] ok1 show ?thesis by simp
        qed
      qed
    qed
  qed
  with assms show ?thesis by blast
qed

lemma legacyAborted_failed:
  assumes a: "legacyAborted env e evs" and m: "GetMessages ch c \<in> set evs"
    and f: "fetchMessagePage env ch c = NotOk status statusText"
  shows "e = FailedToFetchMessages statusText \<and> (\<forall>ev\<in>set evs. \<not> isPost ev)"
proof -
  from a have ne: "evs \<noteq> []" and ok: "allOk env (butlast evs)" by (simp_all add: legacyAborted_def)
  from a obtain ch' c' s' t' where l: "last evs = GetMessages ch' c'"
    and f': "fetchMessagePage env ch' c' = NotOk s' t'" and e: "e = FailedToFetchMessages t'"
    by (auto simp: legacyAborted_def)
  from ne have split: "evs = butlast evs @ [last evs]" by simp
  have "failedStatus env (GetMessages ch c) = Some status" using f by (simp add: failedStatus_def)
  moreover from split m have "GetMessages ch c \<in> set (butlast evs) \<or> GetMessages ch c = last evs"
    by (metis Un_iff empty_iff empty_set insert_iff list.simps(15) set_append)
  ultimately have "GetMessages ch c = last evs" using ok by (auto simp: allOk_def)
  with l f f' e have e': "e = FailedToFetchMessages statusText" by simp
  have "\<forall>ev\<in>set evs. \<not> isPost ev"
  proof
    fix ev assume "ev \<in> set evs"
    with split have "ev \<in> set (butlast evs) \<or> ev = last evs"
      by (metis Un_iff empty_iff empty_set insert_iff list.simps(15) set_append)
    with ok l show "\<not> isPost ev" by (auto simp: allOk_def isPost_def)
  qed
  with e' show ?thesis by simp
qed

lemma generateAndPost_aborts:
  assumes run: "generateAndPostLeaderboard env limit now clock = Some (r, evs)"
    and m: "GetMessages ch c \<in> set evs"
    and f: "fetchMessagePage env ch c = NotOk status statusText"
  shows "r = Inl (FailedToFetchMessages statusText) \<and> (\<forall>ev\<in>set evs. \<not> isPost ev)"
proof -
  from run obtain r1 where g: "getRecentMessages env (SOURCE_CHANNEL_ID env) limit now = Some r1"
    by (cases "getRecentMessages env (SOURCE_CHANNEL_ID env) limit now")
      (auto simp: generateAndPostLeaderboard_def)
  then have "recentLoop env (SOURCE_CHANNEL_ID env) (now - MS_IN_WEEK)
      (case limit of None \<Rightarrow> 100 | Some l \<Rightarrow> l) None [] [] = Some r1"
    by (simp add: getRecentMessages_def)
  from recentLoop_aborts [OF this allOk_Nil]
  have p: "ensures (\<lambda>msgs evs'. allOk env evs') (legacyAborted env) r1" .
  obtain o1 evs1 where r1: "r1 = (o1, evs1)" by (cases r1)
  have fs: "failedStatus env (GetMessages ch c) = Some status" using f by (simp add: failedStatus_def)
  show ?thesis
  proof (cases o1)
    case (Inl e)
    with run g r1 have "r = Inl e" and "evs = evs1" by (auto simp: generateAndPostLeaderboard_def)
    moreover from p r1 Inl have "legacyAborted env e evs1" by simp
    ultimately show ?thesis using legacyAborted_failed [OF _ _ f] m by blast
  next
    case (Inr messages)
    with p r1 have ok: "allOk env evs1" by simp
    from run g r1 Inr obtain pevs where "evs = evs1 @ pevs"
      and "pevs = [PostMessage (POST_CHANNEL_ID env)
                    (generateLeaderboardEmbed (calculatePoints messages) clock)]"
      by (auto simp: generateAndPostLeaderboard_def postLeaderboard_def
          split: response.splits)
    with m ok fs show ?thesis by (auto simp: allOk_def)
  qed
qed

lemma scheduled_aborts:
  assumes run: "scheduled env now clock = Some (r, evs)"
    and m: "ev \<in> set evs" and f: "failedStatus env ev = Some status"
  shows "r = Inl (errorFor ev status) \<and> (\<forall>x\<in>set evs. \<not> isPost x)"
proof -
  from run obtain r1 where s: "runScan env None now = Some r1"
    by (cases "runScan env None now") (auto simp: scheduled_def)
  obtain o1 evs1 where r1: "r1 = (o1, evs1)" by (cases r1)
  with s have s': "runScan env None now = Some (o1, evs1)" by simp
  note a = runScan_aborts [OF s']
  show ?thesis
  proof (cases o1)
    case (Inl e)
    with run s r1 have eq: "r = Inl e" "evs = evs1" by (auto simp: scheduled_def)
    with a Inl m have ab: "abortedAt env e evs" by auto
    from abortedAt_failed [OF ab m f] abortedAt_noPost [OF ab] eq show ?thesis by auto
  next
    case (Inr res)
    with a have ok: "allOk env evs1" by simp
    from run s r1 Inr obtain pevs where "evs = evs1 @ pevs"
      and "pevs = [PostMessage (POST_CHANNEL_ID env)
          (leaderboardEmbed (rows res) (names res) (Some (Some (uniqueReactors res))) clock)]"
      by (auto simp: scheduled_def postFancyLeaderboard_def split: response.splits)
    with m ok f show ?thesis by (auto simp: allOk_def failedStatus_def)
  qed
qed

subsection \<open>The cap of getRecentMessages when the pages are full\<close>



section \<open>The scenarios, evaluated\<close>

lemmas scan_defs = scanLoop_def iterateMessages.simps scanBody_def getReactorsForMessage_def
  reactionUsersLoop.simps emojiIdent_def cursorParam_def setAdd_def pointsOf_def

lemmas demo_msgs = msgA_def msgB_def msgC_def msgD_def msgE_def thumbsUp_def pray_def

lemma demo_scan: "scanLoop demoEnv 1000
    = Some (Inr ([(''1'', 1), (''2'', 2), (''3'', 1)], [''1'', ''2'', ''3'']), demoEvents)"
  by (simp add: scan_defs demoEnv_def demoReactions_def demo_msgs demoEvents_def)

lemma byCodeUnits_lex: "(byCodeUnits a b < 0 \<longleftrightarrow> a < b) \<and> (byCodeUnits a b = 0 \<longleftrightarrow> a = b)"
  by (auto simp: byCodeUnits_def)

lemma demo_runScan: "runScan demoEnv (Some 1000) 2000 = Some (Inr demoResult, demoEvents)"
proof -
  have "topN byCodeUnits [(''1'', 1), (''2'', 2), (''3'', 1)] (Some 10)
      = [(''2'', 2), (''1'', 1), (''3'', 1)]"
    by (simp add: topN_def entryCompare_def byCodeUnits_def)
  moreover have "DISCORD_BOT_TOKEN demoEnv \<noteq> []" and "SOURCE_CHANNEL_ID demoEnv \<noteq> []"
    and "localeCompare demoEnv = byCodeUnits"
    by (simp_all add: demoEnv_def)
  ultimately show ?thesis
    using demo_scan by (simp add: runScan_def demoResult_def buildNameMap_def)
qed




lemma quiet_scan: "scanLoop quietEnv 1000 = Some (Inr ([], []), [GetMessages ''src'' None])"
  by (simp add: scan_defs quietEnv_def demoEnv_def demo_msgs)

lemma failing_runScan:
  "runScan failingEnv (Some 1000) 2000
     = Some (Inl (GetReactionsFailed 429),
             [GetMessages ''src'' None, Yield msgA, GetReactions ''src'' ''40'' ''thumbsup'' None,
              GetReactions ''src'' ''40'' ''pray:900'' None, Yield msgB,
              GetReactions ''src'' ''30'' ''thumbsup'' None])"
  by (simp add: runScan_def scan_defs failingEnv_def demoEnv_def demoReactions_def demo_msgs)






section \<open>The claims\<close>

subsection \<open>C1: one point per message reacted to\<close>




subsection \<open>C2: the paginator stops at the first message older than the window\<close>




subsection \<open>C3: the order of the leaderboard\<close>

text \<open>
  Claim C3, as the code has it.  In worker.js, for a ledger \<open>m\<close> (a map: its keys are
  distinct) on whose keys \<^verbatim>\<open>localeCompare\<close> agrees with the lexicographic order of strings,
  topN gives at most N entries (10 when N is left out), one rendered line for each, sorted
  by points descending and, among equal points, by identifier ascending; and every ledger
  with the same entries in another order gives the same ranking.  In leaderboard.js,
  generateLeaderboardEmbed shows at most 10 entries sorted by points descending only: the
  sort is stable, so entries with equal points stay in the order of the ledger \<open>l\<close>.
\<close>

theorem leaderboard_order:
  assumes keys: "distinct (map fst m)"
    and lex: "\<forall>a\<in>fst ` set m. \<forall>b\<in>fst ` set m. (lc a b < 0 \<longleftrightarrow> a < b) \<and> (lc a b = 0 \<longleftrightarrow> a = b)"
  shows "length (topN lc m n) \<le> (case n of None \<Rightarrow> 10 | Some k \<Rightarrow> k)
       \<and> length (renderLines nm (topN lc m n)) = length (topN lc m n)
       \<and> sorted_wrt (\<lambda>a b. snd b < snd a \<or> (snd a = snd b \<and> fst a < fst b)) (topN lc m n)
       \<and> (\<forall>m'. distinct (map fst m') \<and> set m' = set m \<longrightarrow> topN lc m' n = topN lc m n)
       \<and> length (em_fields (generateLeaderboardEmbed l clock)) \<le> 10
       \<and> sorted_wrt (\<lambda>a b. snd b \<le> snd a) (take 10 (arraySort pointsCompare l))
       \<and> (\<forall>p. filter (\<lambda>e. snd e = p) (arraySort pointsCompare l) = filter (\<lambda>e. snd e = p) l)"
proof -
  let ?P = "\<lambda>a b :: string \<times> nat. snd b < snd a \<or> (snd a = snd b \<and> fst a < fst b)"
  have asym: "\<And>a b. ?P a b \<Longrightarrow> \<not> ?P b a" by auto
  have len: "length (topN lc m n) \<le> (case n of None \<Rightarrow> 10 | Some k \<Rightarrow> k)"
    by (simp add: topN_def)
  have rl: "length (renderLines nm (topN lc m n)) = length (topN lc m n)"
    by (simp add: renderLines_def length_renderLinesFrom)
  have srt: "sorted_wrt ?P (arraySort (entryCompare lc) m)"
    by (rule arraySort_entryCompare_ranked [OF keys lex])
  then have ranked: "sorted_wrt ?P (topN lc m n)"
    unfolding topN_def by (rule sorted_wrt_take)
  have indep: "\<forall>m'. distinct (map fst m') \<and> set m' = set m \<longrightarrow> topN lc m' n = topN lc m n"
  proof (intro allI impI)
    fix m' assume m': "distinct (map fst m') \<and> set m' = set m"
    then have lex': "\<forall>a\<in>fst ` set m'. \<forall>b\<in>fst ` set m'. (lc a b < 0 \<longleftrightarrow> a < b) \<and> (lc a b = 0 \<longleftrightarrow> a = b)"
      using lex by simp
    have "sorted_wrt ?P (arraySort (entryCompare lc) m')"
      by (rule arraySort_entryCompare_ranked) (use m' lex' in auto)
    moreover have "set (arraySort (entryCompare lc) m') = set (arraySort (entryCompare lc) m)"
      using m' by (simp add: set_arraySort)
    ultimately have "arraySort (entryCompare lc) m' = arraySort (entryCompare lc) m"
      using srt sorted_wrt_unique [of ?P, OF asym] by blast
    then show "topN lc m' n = topN lc m n" by (simp add: topN_def)
  qed
  have l1: "length (em_fields (generateLeaderboardEmbed l clock)) \<le> 10"
    by (simp add: generateLeaderboardEmbed_def length_embedFieldsFrom)
  have l2: "sorted_wrt (\<lambda>a b. snd b \<le> snd a) (take 10 (arraySort pointsCompare l))"
    by (rule sorted_wrt_take) (rule arraySort_pointsCompare_sorted)
  have l3: "\<forall>p. filter (\<lambda>e. snd e = p) (arraySort pointsCompare l) = filter (\<lambda>e. snd e = p) l"
    by (simp add: arraySort_pointsCompare_stable)
  from len rl ranked indep l1 l2 l3 show ?thesis by blast
qed

text \<open>
  Three users, two tied at one point: the top 2 are user 2, then user 1, whatever the
  order of the ledger.
\<close>

theorem leaderboard_order_witness:
  "topN byCodeUnits [(''3'', 1), (''2'', 2), (''1'', 1)] (Some 2) = [(''2'', 2), (''1'', 1)]
   \<and> sorted_wrt (\<lambda>a b. snd b < snd a \<or> (snd a = snd b \<and> fst a < fst b))
        (topN byCodeUnits [(''3'', 1), (''2'', 2), (''1'', 1)] (Some 2))
   \<and> topN byCodeUnits [(''1'', 1), (''2'', 2), (''3'', 1)] (Some 2)
       = topN byCodeUnits [(''3'', 1), (''2'', 2), (''1'', 1)] (Some 2)
   \<and> length (em_fields (generateLeaderboardEmbed [(''3'', 1), (''2'', 2), (''1'', 1)] 0)) \<le> 10"
proof -
  have keys: "distinct (map fst [(''3'', 1 :: nat), (''2'', 2), (''1'', 1)])"
    by simp
  have lex: "\<forall>a\<in>fst ` set [(''3'', 1 :: nat), (''2'', 2), (''1'', 1)].
      \<forall>b\<in>fst ` set [(''3'', 1 :: nat), (''2'', 2), (''1'', 1)].
        (byCodeUnits a b < 0 \<longleftrightarrow> a < b) \<and> (byCodeUnits a b = 0 \<longleftrightarrow> a = b)"
    using byCodeUnits_lex by blast
  have other: "distinct (map fst [(''1'', 1 :: nat), (''2'', 2), (''3'', 1)])
      \<and> set [(''1'', 1 :: nat), (''2'', 2), (''3'', 1)] = set [(''3'', 1), (''2'', 2), (''1'', 1)]"
    by auto
  have val: "topN byCodeUnits [(''3'', 1), (''2'', 2), (''1'', 1)] (Some 2) = [(''2'', 2), (''1'', 1)]"
    by (simp add: topN_def entryCompare_def byCodeUnits_def)
  from leaderboard_order [OF keys lex, of "Some 2" "[]" "[(''3'', 1), (''2'', 2), (''1'', 1)]" 0]
    other val
  show ?thesis by blast
qed

text \<open>
  The claim fails on leaderboard.js: two users tied at one point are shown in the order
  of the ledger, user 2 before user 1 in one order and after in the other.
\<close>

theorem legacy_ties_counterexample:
  "map f_value (em_fields (generateLeaderboardEmbed [(''2'', 1), (''1'', 1)] 0))
     = [''<@2> - 1 points'', ''<@1> - 1 points'']
   \<and> map f_value (em_fields (generateLeaderboardEmbed [(''1'', 1), (''2'', 1)] 0))
       = [''<@1> - 1 points'', ''<@2> - 1 points'']
   \<and> ''1'' < ''2''"
  by (simp add: generateLeaderboardEmbed_def pointsCompare_def showNat.simps)

subsection \<open>C4: the message cap\<close>

text \<open>
  Claim C4 at a failing input: getRecentMessages is called with the cap 2 on the channel of
  the scenario, whose first page ends with messages older than the window.  It returns the
  three messages of the page that are inside the window: the branch that ends the loop on
  such a page does not cut the array to the cap.
\<close>

theorem cap_missed_on_last_page:
  "getRecentMessages demoEnv ''src'' (Some 2) (MS_IN_WEEK + 1000)
     = Some (Inr [msgA, msgB, msgC], [GetMessages ''src'' None])"
  by (simp add: getRecentMessages_def recentLoop.simps cursorParam_def demoEnv_def demo_msgs)

subsection \<open>C5: a failed fetch aborts the scan\<close>

text \<open>
  Claim C5, as the code has it.  In worker.js, a page request that is answered with a
  response that is not ok makes iterateMessages, and the loop over the pages of reaction
  users, throw at once the error that carries the response's status; a run of runScan
  whose events hold such a request has thrown the error for it and returned no result, and
  a run of the scheduled entry point has also posted nothing.  In leaderboard.js the error
  of getRecentMessages carries the response's status text, not its status; the run of
  generateAndPostLeaderboard has thrown it and posted nothing.
\<close>

theorem fetch_failure_aborts:
  "(fetchMessagePage env ch (cursorParam before) = NotOk status statusText \<longrightarrow>
      iterateMessages env ch sinceTs body before acc evs0
        = Some (Inl (GetMessagesFailed status), evs0 @ [GetMessages ch (cursorParam before)]))
   \<and> (fetchReactionUserPage env ch mid ident (cursorParam after) = NotOk status statusText \<longrightarrow>
        reactionUsersLoop env ch mid ident after users evs0
          = Some (Inl (GetReactionsFailed status),
                  evs0 @ [GetReactions ch mid ident (cursorParam after)]))
   \<and> (runScan env windowMs now = Some (r, evs) \<longrightarrow> ev \<in> set evs \<longrightarrow>
        failedStatus env ev = Some status \<longrightarrow> r = Inl (errorFor ev status))
   \<and> (scheduled env now clock = Some (r', evs') \<longrightarrow> ev \<in> set evs' \<longrightarrow>
        failedStatus env ev = Some status \<longrightarrow>
        r' = Inl (errorFor ev status) \<and> (\<forall>x\<in>set evs'. \<not> isPost x))
   \<and> (fetchMessagePage env ch (cursorParam before) = NotOk status statusText \<longrightarrow>
        recentLoop env ch sinceTs limit before messages evs0
          = Some (Inl (FailedToFetchMessages statusText),
                  evs0 @ [GetMessages ch (cursorParam before)]))
   \<and> (generateAndPostLeaderboard env limit' now clock = Some (r'', evs'') \<longrightarrow>
        GetMessages ch c \<in> set evs'' \<longrightarrow> fetchMessagePage env ch c = NotOk status statusText \<longrightarrow>
        r'' = Inl (FailedToFetchMessages statusText) \<and> (\<forall>x\<in>set evs''. \<not> isPost x))"
proof -
  have a: "fetchMessagePage env ch (cursorParam before) = NotOk status statusText \<longrightarrow>
      iterateMessages env ch sinceTs body before acc evs0
        = Some (Inl (GetMessagesFailed status), evs0 @ [GetMessages ch (cursorParam before)])"
    by (subst iterateMessages.simps) simp
  have b: "fetchReactionUserPage env ch mid ident (cursorParam after) = NotOk status statusText \<longrightarrow>
      reactionUsersLoop env ch mid ident after users evs0
        = Some (Inl (GetReactionsFailed status),
                evs0 @ [GetReactions ch mid ident (cursorParam after)])"
    by (subst reactionUsersLoop.simps) simp
  have c: "runScan env windowMs now = Some (r, evs) \<longrightarrow> ev \<in> set evs \<longrightarrow>
      failedStatus env ev = Some status \<longrightarrow> r = Inl (errorFor ev status)"
  proof (intro impI)
    assume run: "runScan env windowMs now = Some (r, evs)" and m: "ev \<in> set evs"
      and f: "failedStatus env ev = Some status"
    note p = runScan_aborts [OF run]
    show "r = Inl (errorFor ev status)"
    proof (cases r)
      case (Inl e)
      with p m have "abortedAt env e evs" by auto
      from abortedAt_failed [OF this m f] Inl show ?thesis by simp
    next
      case (Inr res)
      with p m f show ?thesis by (auto simp: allOk_def)
    qed
  qed
  have d: "scheduled env now clock = Some (r', evs') \<longrightarrow> ev \<in> set evs' \<longrightarrow>
      failedStatus env ev = Some status \<longrightarrow>
      r' = Inl (errorFor ev status) \<and> (\<forall>x\<in>set evs'. \<not> isPost x)"
    using scheduled_aborts by blast
  have e: "fetchMessagePage env ch (cursorParam before) = NotOk status statusText \<longrightarrow>
      recentLoop env ch sinceTs limit before messages evs0
        = Some (Inl (FailedToFetchMessages statusText),
                evs0 @ [GetMessages ch (cursorParam before)])"
    by (subst recentLoop.simps) simp
  have f: "generateAndPostLeaderboard env limit' now clock = Some (r'', evs'') \<longrightarrow>
      GetMessages ch c \<in> set evs'' \<longrightarrow> fetchMessagePage env ch c = NotOk status statusText \<longrightarrow>
      r'' = Inl (FailedToFetchMessages statusText) \<and> (\<forall>x\<in>set evs''. \<not> isPost x)"
    using generateAndPost_aborts by blast
  from a b c d e f show ?thesis by blast
qed

text \<open>
  With both endpoints answering 503 every run throws at its first request; and when only
  the reaction users of \<open>msgB\<close> cannot be read (429), runScan throws at that request, after
  \<open>msgA\<close> was scored.
\<close>

theorem fetch_failure_aborts_witness:
  "iterateMessages (downEnv 503 ''Service Unavailable'') ''src'' 1000 takeOnly None () []
     = Some (Inl (GetMessagesFailed 503), [GetMessages ''src'' None])
   \<and> reactionUsersLoop (downEnv 503 ''Service Unavailable'') ''src'' ''40'' ''thumbsup'' None [] []
       = Some (Inl (GetReactionsFailed 503), [GetReactions ''src'' ''40'' ''thumbsup'' None])
   \<and> runScan (downEnv 503 ''Service Unavailable'') (Some 1000) 2000
       = Some (Inl (GetMessagesFailed 503), [GetMessages ''src'' None])
   \<and> scheduled (downEnv 503 ''Service Unavailable'') 2000 2001
       = Some (Inl (GetMessagesFailed 503), [GetMessages ''src'' None])
   \<and> recentLoop (downEnv 503 ''Service Unavailable'') ''src'' 1000 100 None [] []
       = Some (Inl (FailedToFetchMessages ''Service Unavailable''), [GetMessages ''src'' None])
   \<and> generateAndPostLeaderboard (downEnv 503 ''Service Unavailable'') None 2000 2001
       = Some (Inl (FailedToFetchMessages ''Service Unavailable''), [GetMessages ''src'' None])
   \<and> failedStatus failingEnv (GetReactions ''src'' ''30'' ''thumbsup'' None) = Some 429
   \<and> runScan failingEnv (Some 1000) 2000
       = Some (Inl (errorFor (GetReactions ''src'' ''30'' ''thumbsup'' None) 429),
               [GetMessages ''src'' None, Yield msgA,
                GetReactions ''src'' ''40'' ''thumbsup'' None,
                GetReactions ''src'' ''40'' ''pray:900'' None, Yield msgB,
                GetReactions ''src'' ''30'' ''thumbsup'' None])"
proof -
  let ?down = "downEnv 503 ''Service Unavailable''"
  let ?page = "GetMessages ''src'' None"
  let ?users = "GetReactions ''src'' ''30'' ''thumbsup'' None"
  have src: "SOURCE_CHANNEL_ID ?down = ''src''" "DISCORD_BOT_TOKEN ?down \<noteq> []"
    by (simp_all add: downEnv_def demoEnv_def)
  have none: "cursorParam None = None" by (simp add: cursorParam_def)
  have h1: "fetchMessagePage ?down ''src'' (cursorParam None) = NotOk 503 ''Service Unavailable''"
    by (simp add: downEnv_def)
  have h2: "fetchReactionUserPage ?down ''src'' ''40'' ''thumbsup'' (cursorParam None)
      = NotOk 503 ''Service Unavailable''"
    by (simp add: downEnv_def)
  have h3: "fetchMessagePage ?down ''src'' None = NotOk 503 ''Service Unavailable''"
    by (simp add: downEnv_def)
  have scan: "runScan ?down (Some 1000) 2000 = Some (Inl (GetMessagesFailed 503), [?page])"
    using h1 src by (simp add: runScan_def scanLoop_def iterateMessages.simps none)
  have sched: "scheduled ?down 2000 2001 = Some (Inl (GetMessagesFailed 503), [?page])"
    using h1 src by (simp add: scheduled_def runScan_def scanLoop_def iterateMessages.simps none)
  have legacy: "generateAndPostLeaderboard ?down None 2000 2001
      = Some (Inl (FailedToFetchMessages ''Service Unavailable''), [?page])"
    using h1 src
    by (simp add: generateAndPostLeaderboard_def getRecentMessages_def recentLoop.simps none)
  have mem: "?page \<in> set [?page]" by simp
  have st: "failedStatus ?down ?page = Some 503"
    using h3 by (simp add: failedStatus_def)
  have mid: "failedStatus failingEnv ?users = Some 429"
    by (simp add: failedStatus_def failingEnv_def)
  note all_down = fetch_failure_aborts [where env = ?down and ch = "''src''" and before = None
      and status = 503 and statusText = "''Service Unavailable''" and sinceTs = 1000
      and body = takeOnly and acc = "()" and ?evs0.0 = "[]" and mid = "''40''"
      and ident = "''thumbsup''" and after = None and users = "[]" and windowMs = "Some 1000"
      and now = 2000 and r = "Inl (GetMessagesFailed 503)" and evs = "[?page]" and ev = ?page
      and clock = 2001 and r' = "Inl (GetMessagesFailed 503)" and evs' = "[?page]"
      and limit = 100 and messages = "[]" and limit' = None
      and r'' = "Inl (FailedToFetchMessages ''Service Unavailable'')" and evs'' = "[?page]"
      and c = None]
  have mid_scan:
    "runScan failingEnv (Some 1000) 2000
       = Some (Inl (GetReactionsFailed 429),
               [?page, Yield msgA, GetReactions ''src'' ''40'' ''thumbsup'' None,
                GetReactions ''src'' ''40'' ''pray:900'' None, Yield msgB, ?users])
     \<longrightarrow> ?users \<in> set [?page, Yield msgA, GetReactions ''src'' ''40'' ''thumbsup'' None,
                GetReactions ''src'' ''40'' ''pray:900'' None, Yield msgB, ?users]
     \<longrightarrow> failedStatus failingEnv ?users = Some 429
     \<longrightarrow> (Inl (GetReactionsFailed 429) :: error + scanResult) = Inl (errorFor ?users 429)"
    by (rule fetch_failure_aborts [where env = failingEnv and windowMs = "Some 1000"
          and now = 2000 and ev = ?users and status = 429,
          THEN conjunct2, THEN conjunct2, THEN conjunct1])
  from all_down h1 h2 h3 scan sched legacy mem st
  have down: "iterateMessages ?down ''src'' 1000 takeOnly None () []
        = Some (Inl (GetMessagesFailed 503), [?page])
      \<and> reactionUsersLoop ?down ''src'' ''40'' ''thumbsup'' None [] []
        = Some (Inl (GetReactionsFailed 503), [GetReactions ''src'' ''40'' ''thumbsup'' None])
      \<and> recentLoop ?down ''src'' 1000 100 None [] []
        = Some (Inl (FailedToFetchMessages ''Service Unavailable''), [?page])"
    by (simp add: none)
  from mid_scan failing_runScan mid
  have "Inl (GetReactionsFailed 429) = (Inl (errorFor ?users 429) :: error + scanResult)"
    by simp
  with down scan sched legacy mid failing_runScan show ?thesis by simp
qed

text \<open>
  The claim fails on leaderboard.js: a response with status 503 and one with status 429,
  both with an empty status text, give the same error, which names neither status.
\<close>

theorem status_text_counterexample:
  "getRecentMessages (downEnv 503 []) ''src'' None 0
     = Some (Inl (FailedToFetchMessages []), [GetMessages ''src'' None])
   \<and> getRecentMessages (downEnv 429 []) ''src'' None 0
       = Some (Inl (FailedToFetchMessages []), [GetMessages ''src'' None])"
  by (simp add: getRecentMessages_def recentLoop.simps cursorParam_def downEnv_def)

subsection \<open>C6: bots are never counted\<close>

text \<open>
  Claim C6.  The reactor set that getReactorsForMessage returns holds exactly the
  identifiers of the user records without the bot flag in the pages it read, and the seen
  users of a scan are exactly the reactors of the messages yielded.  So when every user
  record with identifier \<open>uid\<close> that the reaction endpoint returns carries the bot flag,
  \<open>uid\<close> is in no reactor set, and after a scan it is in no row, not in the ledger and not
  among the seen users, whose number is the reported uniqueReactors.
\<close>

theorem bots_never_counted:
  assumes run: "runScan env windowMs now = Some (Inr res, evs)"
    and bot: "\<forall>ch mid ident c batch u. fetchReactionUserPage env ch mid ident c = OkJson batch
          \<longrightarrow> u \<in> set batch \<longrightarrow> u_id u = uid \<longrightarrow> u_bot u"
  shows "uid \<notin> fst ` set (rows res)
       \<and> (\<exists>points seen.
            scanLoop env (now - (case windowMs of None \<Rightarrow> weekMs | Some w \<Rightarrow> w))
              = Some (Inr (points, seen), evs)
            \<and> set seen = {u. \<exists>msg\<in>set (yielded evs). reactorOf env (SOURCE_CHANNEL_ID env) msg u}
            \<and> uid \<notin> fst ` set points \<and> uid \<notin> set seen \<and> distinct seen
            \<and> uniqueReactors res = length seen)
       \<and> (\<forall>ch mid rs users evs'.
            getReactorsForMessage env ch mid rs = Some (Inr users, evs') \<longrightarrow>
              set users = {u. nonBotReactor env evs' u} \<and> uid \<notin> set users)"
proof -
  have no: "\<not> nonBotReactor env evs' uid" for evs'
    using nonBotReactor_record [of env evs' uid] bot by blast
  from runScan_Inr [OF run] obtain points seen where
    loop: "scanLoop env (now - (case windowMs of None \<Rightarrow> weekMs | Some w \<Rightarrow> w))
             = Some (Inr (points, seen), evs)"
    and res: "res = \<lparr>rows = topN (localeCompare env) points (Some 10), names = buildNameMap seen,
                     uniqueReactors = length seen\<rparr>"
    by blast
  from scanLoop_scanInv [OF loop]
  have inv: "scanInv env (SOURCE_CHANNEL_ID env)
      (now - (case windowMs of None \<Rightarrow> weekMs | Some w \<Rightarrow> w)) (points, seen) evs" .
  have seen: "set seen = {u. \<exists>msg\<in>set (yielded evs). reactorOf env (SOURCE_CHANNEL_ID env) msg u}"
    using seen_reactors_iff [OF inv] by blast
  have notseen: "uid \<notin> set seen"
  proof
    assume "uid \<in> set seen"
    with seen obtain msg where "reactorOf env (SOURCE_CHANNEL_ID env) msg uid" by blast
    with no show False by (auto simp: reactorOf_def split: option.splits)
  qed
  from inv have keys: "set seen = fst ` set points" and d: "distinct seen"
    by (simp_all add: scanInv_def ledgerInv_def)
  have "fst ` set (rows res) \<subseteq> fst ` set points"
    using set_topN [of "localeCompare env" points "Some 10"] res by auto
  with notseen keys have a: "uid \<notin> fst ` set (rows res)" by auto
  have c: "\<forall>ch mid rs users evs'.
      getReactorsForMessage env ch mid rs = Some (Inr users, evs') \<longrightarrow>
        set users = {u. nonBotReactor env evs' u} \<and> uid \<notin> set users"
  proof (intro allI impI)
    fix ch mid rs users evs'
    assume "getReactorsForMessage env ch mid rs = Some (Inr users, evs')"
    from getReactorsForMessage_usersInv [OF this] no
    show "set users = {u. nonBotReactor env evs' u} \<and> uid \<notin> set users"
      by (simp add: usersInv_def)
  qed
  have u: "uniqueReactors res = length seen" using res by simp
  from notseen keys have k: "uid \<notin> fst ` set points" by simp
  from a loop seen k notseen d u c show ?thesis by blast
qed

text \<open>
  In the scenario the bot 99 reacted to \<open>msgB\<close>: it is in no row, and three users are
  counted.
\<close>

theorem bots_never_counted_witness:
  "runScan demoEnv (Some 1000) 2000 = Some (Inr demoResult, demoEvents)
   \<and> fetchReactionUserPage demoEnv ''src'' ''30'' ''thumbsup'' None
       = OkJson [\<lparr>u_id = ''2'', u_bot = False\<rparr>, \<lparr>u_id = ''99'', u_bot = True\<rparr>,
                 \<lparr>u_id = ''3'', u_bot = False\<rparr>]
   \<and> ''99'' \<notin> fst ` set (rows demoResult)
   \<and> uniqueReactors demoResult = 3"
proof -
  have bot: "\<forall>ch mid ident c batch u. fetchReactionUserPage demoEnv ch mid ident c = OkJson batch
      \<longrightarrow> u \<in> set batch \<longrightarrow> u_id u = ''99'' \<longrightarrow> u_bot u"
    by (auto simp: demoEnv_def demoReactions_def split: if_splits)
  have page: "fetchReactionUserPage demoEnv ''src'' ''30'' ''thumbsup'' None
      = OkJson [\<lparr>u_id = ''2'', u_bot = False\<rparr>, \<lparr>u_id = ''99'', u_bot = True\<rparr>,
                \<lparr>u_id = ''3'', u_bot = False\<rparr>]"
    by (simp add: demoEnv_def demoReactions_def)
  from bots_never_counted [OF demo_runScan bot] demo_runScan page
  show ?thesis by (simp add: demoResult_def)
qed

subsection \<open>C7: what two runs of a scan share\<close>




subsection \<open>C8: the empty ledger\<close>

text \<open>
  Claim C8.  When the loop of runScan ends with an empty ledger, runScan returns no rows,
  no names and the count 0; the embed of postFancyLeaderboard and that of the slash command
  then have the description \<^verbatim>\<open>No points this week.\<close> and show the count \<^verbatim>\<open>0\<close>.  This is
  what happens when the first message of the first page is older than the window start:
  the loop ends after that one request with an empty ledger.
\<close>

theorem empty_ledger_placeholder:
  assumes loop: "scanLoop env (now - (case windowMs of None \<Rightarrow> weekMs | Some w \<Rightarrow> w))
                   = Some (Inr ([], seen), evs)"
    and token: "DISCORD_BOT_TOKEN env \<noteq> []" and source: "SOURCE_CHANNEL_ID env \<noteq> []"
  shows "runScan env windowMs now = Some (Inr \<lparr>rows = [], names = [], uniqueReactors = 0\<rparr>, evs)
       \<and> em_description (leaderboardEmbed [] [] (Some (Some 0)) clock) = ''No points this week.''
       \<and> map f_value (em_fields (leaderboardEmbed [] [] (Some (Some 0)) clock)) = [''0'']
       \<and> em_description (slashEmbed \<lparr>rows = [], names = [], uniqueReactors = 0\<rparr> clock)
           = ''No points this week.''
       \<and> map f_value (em_fields (slashEmbed \<lparr>rows = [], names = [], uniqueReactors = 0\<rparr> clock))
           = [''0'']
       \<and> (\<forall>msg rest sinceTs.
            fetchMessagePage env (SOURCE_CHANNEL_ID env) None = OkJson (msg # rest)
            \<longrightarrow> m_timestamp msg < sinceTs
            \<longrightarrow> scanLoop env sinceTs
                  = Some (Inr ([], []), [GetMessages (SOURCE_CHANNEL_ID env) None]))"
proof -
  from scanLoop_scanInv [OF loop] have "ledgerInv ([], seen)" by (simp add: scanInv_def)
  then have "seen = []" by (simp add: ledgerInv_def)
  with loop token source have run:
    "runScan env windowMs now = Some (Inr \<lparr>rows = [], names = [], uniqueReactors = 0\<rparr>, evs)"
    by (simp add: runScan_def topN_def buildNameMap_def)
  have first: "\<forall>msg rest sinceTs.
      fetchMessagePage env (SOURCE_CHANNEL_ID env) None = OkJson (msg # rest)
      \<longrightarrow> m_timestamp msg < sinceTs
      \<longrightarrow> scanLoop env sinceTs = Some (Inr ([], []), [GetMessages (SOURCE_CHANNEL_ID env) None])"
  proof (intro allI impI)
    fix msg rest sinceTs
    assume "fetchMessagePage env (SOURCE_CHANNEL_ID env) None = OkJson (msg # rest)"
      and "m_timestamp msg < sinceTs"
    then show "scanLoop env sinceTs
        = Some (Inr ([], []), [GetMessages (SOURCE_CHANNEL_ID env) None])"
      unfolding scanLoop_def by (subst iterateMessages.simps) (simp add: cursorParam_def)
  qed
  from run first show ?thesis
    by (simp add: leaderboardEmbed_def slashEmbed_def describeLines_def renderLines_def showNat_0)
qed

text \<open>A channel whose messages are all older than the window.\<close>

theorem empty_ledger_placeholder_witness:
  "scanLoop quietEnv (2000 - 1000) = Some (Inr ([], []), [GetMessages ''src'' None])
   \<and> runScan quietEnv (Some 1000) 2000
       = Some (Inr \<lparr>rows = [], names = [], uniqueReactors = 0\<rparr>, [GetMessages ''src'' None])
   \<and> em_description (leaderboardEmbed [] [] (Some (Some 0)) 2001) = ''No points this week.''
   \<and> map f_value (em_fields (leaderboardEmbed [] [] (Some (Some 0)) 2001)) = [''0'']"
proof -
  have loop: "scanLoop quietEnv (2000 - (case Some 1000 of None \<Rightarrow> weekMs | Some w \<Rightarrow> w))
      = Some (Inr ([], []), [GetMessages ''src'' None])"
    using quiet_scan by simp
  have token: "DISCORD_BOT_TOKEN quietEnv \<noteq> []" and source: "SOURCE_CHANNEL_ID quietEnv \<noteq> []"
    by (simp_all add: quietEnv_def demoEnv_def)
  from empty_ledger_placeholder [OF loop token source, of 2001] quiet_scan
  show ?thesis by simp
qed

subsection \<open>C9: the number of distinct reactors\<close>

text \<open>
  Claim C9.  After a scan the reported uniqueReactors is the number of seen users, who are
  the keys of the ledger; it is fixed by the loop, before any N is chosen, and for every N
  (and every comparison) the ledger's top N has at most that many entries.
\<close>

theorem unique_reactors_bound:
  assumes run: "runScan env windowMs now = Some (Inr res, evs)"
  shows "\<exists>points seen.
      scanLoop env (now - (case windowMs of None \<Rightarrow> weekMs | Some w \<Rightarrow> w))
        = Some (Inr (points, seen), evs)
      \<and> distinct seen \<and> set seen = fst ` set points \<and> uniqueReactors res = length seen
      \<and> rows res = topN (localeCompare env) points (Some 10)
      \<and> (\<forall>lc n. length (topN lc points n) \<le> uniqueReactors res)"
proof -
  from runScan_Inr [OF run] obtain points seen where
    loop: "scanLoop env (now - (case windowMs of None \<Rightarrow> weekMs | Some w \<Rightarrow> w))
             = Some (Inr (points, seen), evs)"
    and res: "res = \<lparr>rows = topN (localeCompare env) points (Some 10), names = buildNameMap seen,
                     uniqueReactors = length seen\<rparr>"
    by blast
  from scanLoop_scanInv [OF loop] have inv: "ledgerInv (points, seen)" by (simp add: scanInv_def)
  then have "length seen = length points" by (rule ledger_sizes)
  then have "\<forall>lc n. length (topN lc points n) \<le> uniqueReactors res"
    using res length_topN by simp
  with loop inv res show ?thesis by (auto simp: ledgerInv_def)
qed

text \<open>In the scenario three users are counted; the top 2 and the top 10 have 2 and 3 entries.\<close>

theorem unique_reactors_bound_witness:
  "runScan demoEnv (Some 1000) 2000 = Some (Inr demoResult, demoEvents)
   \<and> length (topN byCodeUnits [(''1'', 1), (''2'', 2), (''3'', 1)] (Some 2))
       \<le> uniqueReactors demoResult
   \<and> length (topN byCodeUnits [(''1'', 1), (''2'', 2), (''3'', 1)] None)
       \<le> uniqueReactors demoResult"
proof -
  from unique_reactors_bound [OF demo_runScan] obtain points seen where
    loop: "scanLoop demoEnv (2000 - (case Some 1000 of None \<Rightarrow> weekMs | Some w \<Rightarrow> w))
             = Some (Inr (points, seen), demoEvents)"
    and bound: "\<forall>lc n. length (topN lc points n) \<le> uniqueReactors demoResult"
    by blast
  from loop demo_scan have "points = [(''1'', 1), (''2'', 2), (''3'', 1)]" by simp
  with bound demo_runScan show ?thesis by blast
qed

subsection \<open>C10: the default cap\<close>




end
